theory Spec2Isabelle
  imports Main "HOL-Library.Word" "HOL-Library.Signed_Division"
begin

unbundle bit_operations_syntax

section \<open>Machine integers\<close>

text \<open>
  Go's \<open>int\<close> on the 64-bit platforms the controller is built for (the source says
  ``Assume 64 bit CPU''): a 64-bit two's complement value.  \<open>+\<close>, \<open>-\<close> and \<open>*\<close> wrap,
  \<open>>>\<close> on a signed value is the arithmetic shift \<open>signed_drop_bit\<close>, comparisons are
  the signed ones (\<open><s\<close>), and \<open>sint\<close> reads the value.
\<close>

type_synonym go_int = "64 word"

section \<open>Hash table sizing (both generations of the controller share this code)\<close>

text \<open>
  \<^verbatim>\<open>
  func nextPowerOf2(v int) int {
      v--
      v |= v >> 1
      v |= v >> 2
      v |= v >> 4
      v |= v >> 8
      v |= v >> 16
      v++
      return v
  }
  \<close>
\<close>

definition nextPowerOf2 :: "go_int \<Rightarrow> go_int" where
  "nextPowerOf2 v0 =
     (let v = v0 - 1;
          v = v OR signed_drop_bit 1 v;
          v = v OR signed_drop_bit 2 v;
          v = v OR signed_drop_bit 4 v;
          v = v OR signed_drop_bit 8 v;
          v = v OR signed_drop_bit 16 v;
          v = v + 1
      in v)"

text \<open>
  \<^verbatim>\<open>
  func nginxHashBucketSize(longestString int) int {
      wordSize := 8 // Assume 64 bit CPU
      n := longestString + 2
      aligned := (n + wordSize - 1) & ^(wordSize - 1)
      rawSize := wordSize + wordSize + aligned
      return nextPowerOf2(rawSize)
  }
  \<close>
\<close>

definition nginxHashBucketSize :: "go_int \<Rightarrow> go_int" where
  "nginxHashBucketSize longestString =
     (let wordSize = 8;
          n = longestString + 2;
          aligned = (n + wordSize - 1) AND NOT (wordSize - 1);
          rawSize = wordSize + wordSize + aligned
      in nextPowerOf2 rawSize)"


section \<open>Routing intent and backend configuration\<close>

text \<open>
  The fields of \<open>ingress.Server\<close> and of the backend \<open>Configuration\<close> that the sizing code
  reads or writes.  Both types are declared in other packages; the fields are taken
  from their uses.  \<open>len\<close> is Go's \<open>len\<close> on a string: its number of bytes, an \<open>int\<close>.
\<close>

record Server =
  Hostname :: string
  Aliases :: "string list"
  RedirectFromToWWW :: bool

record Configuration =
  ServerNameHashBucketSize :: go_int
  ServerNameHashMaxSize :: go_int
  MaxWorkerOpenFiles :: go_int
  MaxWorkerConnections :: go_int
  SSLDHParam :: string

definition len :: "string \<Rightarrow> go_int" where
  "len s = of_nat (length s)"

subsection \<open>Current controller: the sizing part of \<open>renderTemplate\<close>\<close>

text \<open>
  \<^verbatim>\<open>
  for _, alias := range srv.Aliases {
      if longestName < len(alias) {
          longestName = len(alias)
      }
  }
  \<close>
\<close>

fun aliases_loop :: "go_int \<Rightarrow> string list \<Rightarrow> go_int" where
  "aliases_loop longestName [] = longestName"
| "aliases_loop longestName (alias # rest) =
     aliases_loop (if longestName <s len alias then len alias else longestName) rest"

text \<open>
  \<^verbatim>\<open>
  var longestName int
  var serverNameBytes int
  for _, srv := range ingressCfg.Servers {
      hostnameLength := len(srv.Hostname)
      if srv.RedirectFromToWWW {
          hostnameLength += 4
      }
      if longestName < hostnameLength {
          longestName = hostnameLength
      }
      for _, alias := range srv.Aliases { ... }
      serverNameBytes += hostnameLength
  }
  \<close>
  The loop state is the pair \<open>(longestName, serverNameBytes)\<close>.
\<close>

fun servers_loop :: "go_int \<times> go_int \<Rightarrow> Server list \<Rightarrow> go_int \<times> go_int" where
  "servers_loop (longestName, serverNameBytes) [] = (longestName, serverNameBytes)"
| "servers_loop (longestName, serverNameBytes) (srv # rest) =
     (let hostnameLength = len (Hostname srv);
          hostnameLength = (if RedirectFromToWWW srv then hostnameLength + 4 else hostnameLength);
          longestName = (if longestName <s hostnameLength then hostnameLength else longestName);
          longestName = aliases_loop longestName (Aliases srv);
          serverNameBytes = serverNameBytes + hostnameLength
      in servers_loop (longestName, serverNameBytes) rest)"

text \<open>
  Go converts an \<open>int\<close> to \<open>float64\<close> by rounding to the nearest value with a 53-bit
  significand, ties to even; \<open>float64_of_int\<close> is the (integral) value of that float.
  Converting it back to \<open>int\<close> is exact whenever the value fits, which it does for every
  float met here.
\<close>

fun bitlen :: "nat \<Rightarrow> nat" where
  "bitlen n = (if n = 0 then 0 else Suc (bitlen (n div 2)))"

declare bitlen.simps [simp del]

definition float64_of_int :: "int \<Rightarrow> int" where
  "float64_of_int y =
     (let a = \<bar>y\<bar>
      in if a < 2 ^ 53 then y
         else (let e = bitlen (nat a) - 53;
                   q = a div 2 ^ e; r = a mod 2 ^ e; half = 2 ^ (e - 1);
                   q = (if half < r \<or> (r = half \<and> odd q) then q + 1 else q)
               in sgn y * (q * 2 ^ e)))"

text \<open>Go's \<open>/\<close> on \<open>int\<close>: the quotient truncated towards zero (the divisor here is the constant 4).\<close>

definition go_div :: "go_int \<Rightarrow> go_int \<Rightarrow> go_int" where
  "go_div a b = word_of_int (sint a sdiv sint b)"

text \<open>
  \<open>renderTemplate\<close>, from the loop over the servers to the worker limits.  The result of
  \<open>ingressruntime.RlimitMaxNumFiles()\<close>, the file descriptor limit of the process, is the
  parameter \<open>rlimitMaxNumFiles\<close>.
  \<^verbatim>\<open>
  nameHashBucketSize := nginxHashBucketSize(longestName)
  if cfg.ServerNameHashBucketSize < nameHashBucketSize {
      cfg.ServerNameHashBucketSize = nameHashBucketSize
  }
  serverNameHashMaxSize := nextPowerOf2(serverNameBytes)
  if cfg.ServerNameHashMaxSize < serverNameHashMaxSize {
      cfg.ServerNameHashMaxSize = serverNameHashMaxSize
  }
  if cfg.MaxWorkerOpenFiles == 0 {
      maxOpenFiles := ingressruntime.RlimitMaxNumFiles() - 1024
      if maxOpenFiles < 1024 {
          maxOpenFiles = 1024
      }
      cfg.MaxWorkerOpenFiles = maxOpenFiles
  }
  if cfg.MaxWorkerConnections == 0 {
      maxWorkerConnections := int(float64(cfg.MaxWorkerOpenFiles * 3.0 / 4))
      cfg.MaxWorkerConnections = maxWorkerConnections
  }
  \<close>
  In \<open>cfg.MaxWorkerOpenFiles * 3.0 / 4\<close> the untyped constants take the type \<open>int\<close> of the
  field, so the product and the quotient are integer operations.
\<close>

definition renderTemplate_cfg :: "go_int \<Rightarrow> Configuration \<Rightarrow> Server list \<Rightarrow> Configuration" where
  "renderTemplate_cfg rlimitMaxNumFiles cfg servers =
     (let (longestName, serverNameBytes) = servers_loop (0, 0) servers;
          nameHashBucketSize = nginxHashBucketSize longestName;
          cfg = (if ServerNameHashBucketSize cfg <s nameHashBucketSize
                 then cfg\<lparr>ServerNameHashBucketSize := nameHashBucketSize\<rparr> else cfg);
          serverNameHashMaxSize = nextPowerOf2 serverNameBytes;
          cfg = (if ServerNameHashMaxSize cfg <s serverNameHashMaxSize
                 then cfg\<lparr>ServerNameHashMaxSize := serverNameHashMaxSize\<rparr> else cfg);
          cfg = (if MaxWorkerOpenFiles cfg = 0
                 then (let maxOpenFiles = rlimitMaxNumFiles - 1024;
                           maxOpenFiles = (if maxOpenFiles <s 1024 then 1024 else maxOpenFiles)
                       in cfg\<lparr>MaxWorkerOpenFiles := maxOpenFiles\<rparr>)
                 else cfg);
          cfg = (if MaxWorkerConnections cfg = 0
                 then (let maxWorkerConnections =
                             word_of_int (float64_of_int (sint (go_div (MaxWorkerOpenFiles cfg * 3) 4)))
                       in cfg\<lparr>MaxWorkerConnections := maxWorkerConnections\<rparr>)
                 else cfg)
      in cfg)"

subsection \<open>Legacy controller: the sizing part of its \<open>OnUpdate\<close>\<close>

text \<open>Go's \<open>strings.HasPrefix\<close> and \<open>strings.TrimLeft\<close> (which removes every leading
  character that occurs in the cutset, not a prefix).\<close>

definition HasPrefix :: "string \<Rightarrow> string \<Rightarrow> bool" where
  "HasPrefix s prefix = (length prefix \<le> length s \<and> take (length prefix) s = prefix)"

definition TrimLeft :: "string \<Rightarrow> string \<Rightarrow> string" where
  "TrimLeft s cutset = dropWhile (\<lambda>c. c \<in> set cutset) s"

text \<open>
  \<^verbatim>\<open>
  var longestName int
  var serverNameBytes int
  redirectServers := make(map[string]string)
  for _, srv := range ingressCfg.Servers {
      if longestName < len(srv.Hostname) {
          longestName = len(srv.Hostname)
      }
      serverNameBytes += len(srv.Hostname)
      if srv.RedirectFromToWWW {
          var n string
          if strings.HasPrefix(srv.Hostname, "www.") {
              n = strings.TrimLeft(srv.Hostname, "www.")
          } else {
              n = fmt.Sprintf("www.%v", srv.Hostname)
          }
          if _, ok := redirectServers[n]; !ok {
              found := false
              for _, esrv := range ingressCfg.Servers {
                  if esrv.Hostname == n {
                      found = true
                      break
                  }
              }
              if !found {
                  redirectServers[n] = srv.Hostname
              }
          }
      }
  }
  \<close>
  The first argument is the whole of \<open>ingressCfg.Servers\<close>, which the inner loop searches.
\<close>

fun servers_loop_legacy ::
  "Server list \<Rightarrow> go_int \<times> go_int \<times> (string \<rightharpoonup> string) \<Rightarrow> Server list
    \<Rightarrow> go_int \<times> go_int \<times> (string \<rightharpoonup> string)" where
  "servers_loop_legacy all (longestName, serverNameBytes, redirectServers) [] =
     (longestName, serverNameBytes, redirectServers)"
| "servers_loop_legacy all (longestName, serverNameBytes, redirectServers) (srv # rest) =
     (let longestName = (if longestName <s len (Hostname srv) then len (Hostname srv)
                         else longestName);
          serverNameBytes = serverNameBytes + len (Hostname srv);
          redirectServers =
            (if RedirectFromToWWW srv
             then (let n = (if HasPrefix (Hostname srv) ''www.''
                            then TrimLeft (Hostname srv) ''www.''
                            else ''www.'' @ Hostname srv)
                   in if redirectServers n = None
                      then (let found = list_ex (\<lambda>esrv. Hostname esrv = n) all
                            in if \<not> found then redirectServers(n \<mapsto> Hostname srv)
                               else redirectServers)
                      else redirectServers)
             else redirectServers)
      in servers_loop_legacy all (longestName, serverNameBytes, redirectServers) rest)"

text \<open>
  \<^verbatim>\<open>
  if cfg.ServerNameHashBucketSize == 0 {
      nameHashBucketSize := nginxHashBucketSize(longestName)
      cfg.ServerNameHashBucketSize = nameHashBucketSize
  }
  serverNameHashMaxSize := nextPowerOf2(serverNameBytes)
  if cfg.ServerNameHashMaxSize < serverNameHashMaxSize {
      cfg.ServerNameHashMaxSize = serverNameHashMaxSize
  }
  \<close>
  The result is the adjusted configuration and the map \<open>RedirectServers\<close> of the template.
\<close>

definition OnUpdate_cfg_legacy ::
  "Configuration \<Rightarrow> Server list \<Rightarrow> Configuration \<times> (string \<rightharpoonup> string)" where
  "OnUpdate_cfg_legacy cfg servers =
     (let (longestName, serverNameBytes, redirectServers) =
            servers_loop_legacy servers (0, 0, Map.empty) servers;
          cfg = (if ServerNameHashBucketSize cfg = 0
                 then cfg\<lparr>ServerNameHashBucketSize := nginxHashBucketSize longestName\<rparr>
                 else cfg);
          serverNameHashMaxSize = nextPowerOf2 serverNameBytes;
          cfg = (if ServerNameHashMaxSize cfg <s serverNameHashMaxSize
                 then cfg\<lparr>ServerNameHashMaxSize := serverNameHashMaxSize\<rparr> else cfg)
      in (cfg, redirectServers))"

text \<open>
  \<^verbatim>\<open>
  wp, err := strconv.Atoi(cfg.WorkerProcesses)
  if err != nil {
      wp = 1
  }
  maxOpenFiles := (sysctlFSFileMax() / wp) - 1024
  if maxOpenFiles < 1024 {
      maxOpenFiles = 1024
  }
  \<close>
  The outcome of \<open>strconv.Atoi\<close> on the configured number of worker processes is the
  first parameter (\<open>None\<close> when it returns an error), the result of \<open>sysctlFSFileMax()\<close>
  the second.  Go panics on an integer division by zero: the result is \<open>None\<close> then.
\<close>

definition maxOpenFiles_legacy :: "go_int option \<Rightarrow> go_int \<Rightarrow> go_int option" where
  "maxOpenFiles_legacy atoi fileMax =
     (let wp = (case atoi of None \<Rightarrow> 1 | Some v \<Rightarrow> v)
      in if wp = 0 then None
         else (let maxOpenFiles = go_div fileMax wp - 1024
               in Some (if maxOpenFiles <s 1024 then 1024 else maxOpenFiles)))"

section \<open>Validate, then apply: \<open>testTemplate\<close> and \<open>OnUpdate\<close>\<close>

text \<open>
  The file system is a map from paths to contents.  The state also keeps the log of the
  writes made so far (path and bytes that reached the file, oldest first) and the number
  of temporary files created, which indexes the random part of the next temporary name.
\<close>

type_synonym path = string
type_synonym bytes = string

datatype error =
    EmptyConfiguration
  | TempFileError
  | WriteFileError
  | TestError string
  | TemplateError
  | OpentracingError
  | ReloadError string
  | DivideByZeroPanic

text \<open>What \<open>os.WriteFile\<close> can do: write everything, fail to open the file, or fail after
  some of the bytes have been written to the truncated file.\<close>

datatype write_outcome = Written | NotOpened | Truncated nat

record world =
  files :: "path \<rightharpoonup> bytes"
  writes :: "(path \<times> bytes) list"
  temps :: nat

text \<open>
  Everything outside the controller is a parameter: the operating system (temporary
  directory, random names, failures of file operations), the worker binary (\<open>nginx -t\<close>
  on a file's content and \<open>nginx -s reload\<close>, each returning \<open>Some output\<close> on a non-zero
  exit), the template engine (\<open>None\<close> on error), the store of secrets, the log verbosity,
  and the process limits.
\<close>

record env =
  TempDir :: string
  nextRandom :: "nat \<Rightarrow> string"
  create_fails :: "path \<Rightarrow> bool"
  write_result :: "path \<Rightarrow> bytes \<Rightarrow> write_outcome"
  nginx_test :: "bytes option \<Rightarrow> string option"
  nginx_reload :: "string option"
  t_Write :: "Configuration \<Rightarrow> Server list \<Rightarrow> bytes option"
  t_Write_legacy ::
    "Configuration \<Rightarrow> go_int \<Rightarrow> (string \<rightharpoonup> string) \<Rightarrow> Server list \<Rightarrow> bytes option"
  GetSecret :: "string \<Rightarrow> (string \<rightharpoonup> bytes) option"
  DefaultSSLDirectory :: string
  opentracing_json :: "Configuration \<Rightarrow> bytes option"
  verbose :: bool
  gRPCServer_nil :: bool
  RlimitMaxNumFiles :: go_int
  atoi_WorkerProcesses :: "go_int option"
  sysctlFSFileMax :: go_int

definition cfgPath :: path where
  "cfgPath = ''/etc/nginx/nginx.conf''"

definition tempNginxPattern :: string where
  "tempNginxPattern = ''nginx-cfg''"

definition WriteFile :: "env \<Rightarrow> path \<Rightarrow> bytes \<Rightarrow> world \<Rightarrow> error option \<times> world" where
  "WriteFile e p d w =
     (case write_result e p d of
        Written \<Rightarrow> (None, w\<lparr>files := (files w)(p \<mapsto> d), writes := writes w @ [(p, d)]\<rparr>)
      | NotOpened \<Rightarrow> (Some WriteFileError, w)
      | Truncated k \<Rightarrow>
          (Some WriteFileError,
           w\<lparr>files := (files w)(p \<mapsto> take k d), writes := writes w @ [(p, take k d)]\<rparr>))"

definition Remove :: "path \<Rightarrow> world \<Rightarrow> world" where
  "Remove p w = w\<lparr>files := (files w)(p := None)\<rparr>"

text \<open>
  \<open>os.CreateTemp(dir, pattern)\<close> (and the older \<open>ioutil.TempFile\<close>): with no \<open>*\<close> in the
  pattern the name is the pattern followed by a random string, in \<open>dir\<close> or, when \<open>dir\<close>
  is empty, in \<open>os.TempDir()\<close>.  The file is created exclusively, empty; when the name
  exists already another random string is drawn, up to 10000 times, and any other
  failure to create the file is returned at once.
\<close>

definition joinPath :: "string \<Rightarrow> string \<Rightarrow> path" where
  "joinPath dir name = (if dir \<noteq> [] \<and> last dir = CHR ''/'' then dir @ name else dir @ ''/'' @ name)"

fun CreateTemp_try :: "env \<Rightarrow> string \<Rightarrow> string \<Rightarrow> nat \<Rightarrow> world \<Rightarrow> path option \<times> world" where
  "CreateTemp_try e dir pattern 0 w = (None, w)"
| "CreateTemp_try e dir pattern (Suc tries) w =
     (let name = joinPath dir (pattern @ nextRandom e (temps w));
          w = w\<lparr>temps := Suc (temps w)\<rparr>
      in if files w name \<noteq> None then CreateTemp_try e dir pattern tries w
         else if create_fails e name then (None, w)
         else (Some name, w\<lparr>files := (files w)(name \<mapsto> [])\<rparr>))"

definition CreateTemp :: "env \<Rightarrow> string \<Rightarrow> string \<Rightarrow> world \<Rightarrow> path option \<times> world" where
  "CreateTemp e dir pattern w =
     CreateTemp_try e (if dir = [] then TempDir e else dir) pattern 10000 w"

text \<open>
  \<^verbatim>\<open>
  func (n *NGINXController) testTemplate(cfg []byte) error {
      if len(cfg) == 0 {
          return fmt.Errorf("invalid NGINX configuration (empty)")
      }
      tmpDir := os.TempDir() + "/nginx"
      tmpfile, err := os.CreateTemp(tmpDir, tempNginxPattern)
      if err != nil {
          return err
      }
      defer tmpfile.Close()
      err = os.WriteFile(tmpfile.Name(), cfg, file.ReadWriteByUser)
      if err != nil {
          return err
      }
      out, err := n.command.Test(tmpfile.Name())
      if err != nil {
          ...
          return errors.New(oe)
      }
      os.Remove(tmpfile.Name())
      return nil
  }
  \<close>
  The legacy \<open>testTemplate\<close> differs in the directory only: \<open>ioutil.TempFile("", "nginx-cfg")\<close>.
\<close>

definition testTemplate_in :: "string \<Rightarrow> env \<Rightarrow> bytes \<Rightarrow> world \<Rightarrow> error option \<times> world" where
  "testTemplate_in tmpDir e cfg w =
     (if length cfg = 0 then (Some EmptyConfiguration, w)
      else (case CreateTemp e tmpDir tempNginxPattern w of
              (None, w) \<Rightarrow> (Some TempFileError, w)
            | (Some tmpfile, w) \<Rightarrow>
                (case WriteFile e tmpfile cfg w of
                   (Some err, w) \<Rightarrow> (Some err, w)
                 | (None, w) \<Rightarrow>
                     (case nginx_test e (files w tmpfile) of
                        Some out \<Rightarrow> (Some (TestError out), w)
                      | None \<Rightarrow> (None, Remove tmpfile w)))))"

definition testTemplate :: "env \<Rightarrow> bytes \<Rightarrow> world \<Rightarrow> error option \<times> world" where
  "testTemplate e cfg w = testTemplate_in (TempDir e @ ''/nginx'') e cfg w"

definition testTemplate_legacy :: "env \<Rightarrow> bytes \<Rightarrow> world \<Rightarrow> error option \<times> world" where
  "testTemplate_legacy e cfg w = testTemplate_in [] e cfg w"

text \<open>
  \<^verbatim>\<open>
  func (n *NGINXController) getDHParam(cfg ngx_config.Configuration) (string, []byte) {
      secretName := cfg.SSLDHParam
      nsSecName := strings.Replace(secretName, "/", "-", -1)
      secret, err := n.store.GetSecret(secretName)
      if err != nil {
          return "", nil
      }
      dh, ok = secret.Data["dhparam.pem"]
      if !ok {
          return "", nil
      }
      pemName := fmt.Sprintf("%s/%v.pem", file.DefaultSSLDirectory, nsSecName)
      return pemName, dh
  }
  \<close>
\<close>

definition nsSecName :: "string \<Rightarrow> string" where
  "nsSecName secretName = map (\<lambda>c. if c = CHR ''/'' then CHR ''-'' else c) secretName"

definition getDHParam :: "env \<Rightarrow> Configuration \<Rightarrow> string \<times> bytes option" where
  "getDHParam e cfg =
     (case GetSecret e (SSLDHParam cfg) of
        None \<Rightarrow> ([], None)
      | Some data \<Rightarrow>
          (case data ''dhparam.pem'' of
             None \<Rightarrow> ([], None)
           | Some dh \<Rightarrow>
               (DefaultSSLDirectory e @ ''/'' @ nsSecName (SSLDHParam cfg) @ ''.pem'', Some dh)))"

text \<open>
  Modelled from the spec: \<open>ssl.AddOrUpdateDHParam\<close> belongs to another package.  The
  specification has the renderer ``resolve a Diffie-Hellman parameter file referenced by a
  secret name'', a failure only disabling the feature: the helper stores the bytes in the
  \<open>.pem\<close> file it is given, or fails.
\<close>

definition AddOrUpdateDHParam :: "env \<Rightarrow> path \<Rightarrow> bytes option \<Rightarrow> world \<Rightarrow> error option \<times> world" where
  "AddOrUpdateDHParam e name dh w = WriteFile e name (case dh of None \<Rightarrow> [] | Some b \<Rightarrow> b) w"

text \<open>
  \<^verbatim>\<open>
  func (n *NGINXController) generateTemplate(cfg ngx_config.Configuration,
          ingressCfg ingress.Configuration) ([]byte, error) {
      sslDHParamFile := ""
      if cfg.SSLDHParam != "" {
          sslDHParamFile, dh := n.getDHParam(cfg)
          if sslDHParamFile != "" && dh != nil {
              cfg.SSLDHParam = sslDHParamFile
          }
          err := ssl.AddOrUpdateDHParam(sslDHParamFile, dh)
          if err != nil { klog.Warningf(...) }
      }
      cfg.SSLDHParam = sslDHParamFile
      tc, err := n.renderTemplate(cfg, ingressCfg)
      if err != nil { return nil, ... }
      return n.t.Write(tc)
  }
  \<close>
  The inner \<open>sslDHParamFile\<close> shadows the outer one, which is still empty at the last
  assignment.  \<open>renderTemplate\<close> never returns an error; beyond the configuration it
  adjusts, it reads the store and replaces the in-memory list of passthrough servers.
\<close>

definition generateTemplate ::
  "env \<Rightarrow> Configuration \<Rightarrow> Server list \<Rightarrow> world \<Rightarrow> bytes option \<times> world" where
  "generateTemplate e cfg servers w =
     (let w = (if SSLDHParam cfg \<noteq> []
               then (let (sslDHParamFile, dh) = getDHParam e cfg
                     in snd (AddOrUpdateDHParam e sslDHParamFile dh w))
               else w);
          cfg = cfg\<lparr>SSLDHParam := []\<rparr>;
          tc = renderTemplate_cfg (RlimitMaxNumFiles e) cfg servers
      in (t_Write e tc servers, w))"

text \<open>
  \<open>createOpentracingCfg\<close> executes one of four constant templates on the configuration,
  expands environment variables in the result (both are the parameter
  \<open>opentracing_json\<close>), and ends with
  \<^verbatim>\<open>return os.WriteFile("/etc/nginx/opentracing.json", []byte(expanded), file.ReadWriteByUser)\<close>
\<close>

definition createOpentracingCfg :: "env \<Rightarrow> Configuration \<Rightarrow> world \<Rightarrow> error option \<times> world" where
  "createOpentracingCfg e cfg w =
     (case opentracing_json e cfg of
        None \<Rightarrow> (Some OpentracingError, w)
      | Some expanded \<Rightarrow> WriteFile e ''/etc/nginx/opentracing.json'' expanded w)"

text \<open>
  The block of \<open>OnUpdate\<close> that logs a diff, the same in both generations but for the
  arguments of \<open>diff\<close>, whose output and exit status only reach the log:
  \<^verbatim>\<open>
  if klog.V(2).Enabled() {
      src, _ := os.ReadFile(cfgPath)
      if !bytes.Equal(src, content) {
          tmpfile, err := os.CreateTemp("", "new-nginx-cfg")
          if err != nil {
              return err
          }
          defer tmpfile.Close()
          err = os.WriteFile(tmpfile.Name(), content, file.ReadWriteByUser)
          if err != nil {
              return err
          }
          diffOutput, err := exec.Command("diff", ..., cfgPath, tmpfile.Name()).CombinedOutput()
          ...
          os.Remove(tmpfile.Name())
      }
  }
  \<close>
\<close>

definition OnUpdate_diff :: "env \<Rightarrow> bytes \<Rightarrow> world \<Rightarrow> error option \<times> world" where
  "OnUpdate_diff e content w =
     (if verbose e
      then (let src = (case files w cfgPath of None \<Rightarrow> [] | Some b \<Rightarrow> b)
            in if src \<noteq> content
               then (case CreateTemp e [] ''new-nginx-cfg'' w of
                       (None, w) \<Rightarrow> (Some TempFileError, w)
                     | (Some tmpfile, w) \<Rightarrow>
                         (case WriteFile e tmpfile content w of
                            (Some err, w) \<Rightarrow> (Some err, w)
                          | (None, w) \<Rightarrow> (None, Remove tmpfile w)))
               else (None, w))
      else (None, w))"

text \<open>
  \<^verbatim>\<open>
  func (n *NGINXController) OnUpdate(ingressCfg ingress.Configuration) error {
      cfg := n.store.GetBackendConfiguration()
      cfg.Resolver = n.resolver
      content, err := n.generateTemplate(cfg, ingressCfg)
      if err != nil {
          return err
      }
      err = createOpentracingCfg(cfg)
      if err != nil {
          return err
      }
      err = n.testTemplate(content)
      if err != nil {
          return err
      }
      if klog.V(2).Enabled() { ... }
      err = os.WriteFile(cfgPath, content, file.ReadWriteByUser)
      if err != nil {
          return err
      }
      if n.gRPCServer == nil {
          o, err := n.command.ExecCommand("-s", "reload").CombinedOutput()
          if err != nil {
              return fmt.Errorf("%v\n%v", err, string(o))
          }
      }
      return nil
  }
  \<close>
  The configuration read from the store is the parameter \<open>cfg\<close>.
\<close>

definition OnUpdate ::
  "env \<Rightarrow> Configuration \<Rightarrow> Server list \<Rightarrow> world \<Rightarrow> error option \<times> world" where
  "OnUpdate e cfg servers w =
     (case generateTemplate e cfg servers w of
        (None, w) \<Rightarrow> (Some TemplateError, w)
      | (Some content, w) \<Rightarrow>
     (case createOpentracingCfg e cfg w of
        (Some err, w) \<Rightarrow> (Some err, w)
      | (None, w) \<Rightarrow>
     (case testTemplate e content w of
        (Some err, w) \<Rightarrow> (Some err, w)
      | (None, w) \<Rightarrow>
     (case OnUpdate_diff e content w of
        (Some err, w) \<Rightarrow> (Some err, w)
      | (None, w) \<Rightarrow>
     (case WriteFile e cfgPath content w of
        (Some err, w) \<Rightarrow> (Some err, w)
      | (None, w) \<Rightarrow>
          (if gRPCServer_nil e
           then (case nginx_reload e of
                   Some out \<Rightarrow> (Some (ReloadError out), w)
                 | None \<Rightarrow> (None, w))
           else (None, w)))))))"

text \<open>
  Modelled from the spec: the legacy \<open>ssl.AddOrUpdateDHParam(nsSecName, dh, n.fileSystem)\<close>
  belongs to another package too; it returns the name of the \<open>.pem\<close> file it wrote
  for the secret, in the directory of the certificates.
\<close>

definition AddOrUpdateDHParam_legacy ::
  "env \<Rightarrow> string \<Rightarrow> bytes \<Rightarrow> world \<Rightarrow> path option \<times> world" where
  "AddOrUpdateDHParam_legacy e name dh w =
     (let pemFileName = DefaultSSLDirectory e @ ''/'' @ name @ ''.pem''
      in case WriteFile e pemFileName dh w of
           (None, w) \<Rightarrow> (Some pemFileName, w)
         | (Some err, w) \<Rightarrow> (None, w))"

text \<open>
  \<^verbatim>\<open>
  sslDHParam := ""
  if cfg.SSLDHParam != "" {
      secretName := cfg.SSLDHParam
      secret, err := n.storeLister.GetSecret(secretName)
      if err != nil { glog.Warningf(...) }
      if secret != nil {
          nsSecName := strings.Replace(secretName, "/", "-", -1)
          dh, ok := secret.Data["dhparam.pem"]
          if ok {
              pemFileName, err := ssl.AddOrUpdateDHParam(nsSecName, dh, n.fileSystem)
              if err != nil { glog.Warningf(...) } else { sslDHParam = pemFileName }
          }
      }
  }
  cfg.SSLDHParam = sslDHParam
  \<close>
\<close>

definition OnUpdate_dhparam_legacy :: "env \<Rightarrow> Configuration \<Rightarrow> world \<Rightarrow> Configuration \<times> world" where
  "OnUpdate_dhparam_legacy e cfg w =
     (if SSLDHParam cfg \<noteq> []
      then (case GetSecret e (SSLDHParam cfg) of
              None \<Rightarrow> (cfg\<lparr>SSLDHParam := []\<rparr>, w)
            | Some data \<Rightarrow>
                (case data ''dhparam.pem'' of
                   None \<Rightarrow> (cfg\<lparr>SSLDHParam := []\<rparr>, w)
                 | Some dh \<Rightarrow>
                     (case AddOrUpdateDHParam_legacy e (nsSecName (SSLDHParam cfg)) dh w of
                        (None, w) \<Rightarrow> (cfg\<lparr>SSLDHParam := []\<rparr>, w)
                      | (Some pemFileName, w) \<Rightarrow> (cfg\<lparr>SSLDHParam := pemFileName\<rparr>, w))))
      else (cfg\<lparr>SSLDHParam := []\<rparr>, w))"

text \<open>
  The legacy \<open>OnUpdate\<close> is one function: the sizing above, the limit of open files, the
  Diffie-Hellman file, the template, and then
  \<^verbatim>\<open>
  content, err := n.t.Write(tc)
  if err != nil {
      return err
  }
  err = n.testTemplate(content)
  if err != nil {
      return err
  }
  if glog.V(2) { ... }
  err = ioutil.WriteFile(cfgPath, content, 0644)
  if err != nil {
      return err
  }
  o, err := exec.Command(n.binary, "-s", "reload", "-c", cfgPath).CombinedOutput()
  if err != nil {
      return fmt.Errorf("%v\n%v", err, string(o))
  }
  return nil
  \<close>
  Its other steps (the list of passthrough servers, the status monitor, the header maps
  read from the store) change no file.  A division by zero ends it with a panic.
\<close>

definition OnUpdate_legacy ::
  "env \<Rightarrow> Configuration \<Rightarrow> Server list \<Rightarrow> world \<Rightarrow> error option \<times> world" where
  "OnUpdate_legacy e cfg servers w =
     (let (cfg, redirectServers) = OnUpdate_cfg_legacy cfg servers
      in case maxOpenFiles_legacy (atoi_WorkerProcesses e) (sysctlFSFileMax e) of
           None \<Rightarrow> (Some DivideByZeroPanic, w)
         | Some maxOpenFiles \<Rightarrow>
     (case OnUpdate_dhparam_legacy e cfg w of (cfg, w) \<Rightarrow>
     (case t_Write_legacy e cfg maxOpenFiles redirectServers servers of
        None \<Rightarrow> (Some TemplateError, w)
      | Some content \<Rightarrow>
     (case testTemplate_legacy e content w of
        (Some err, w) \<Rightarrow> (Some err, w)
      | (None, w) \<Rightarrow>
     (case OnUpdate_diff e content w of
        (Some err, w) \<Rightarrow> (Some err, w)
      | (None, w) \<Rightarrow>
     (case WriteFile e cfgPath content w of
        (Some err, w) \<Rightarrow> (Some err, w)
      | (None, w) \<Rightarrow>
          (case nginx_reload e of
             Some out \<Rightarrow> (Some (ReloadError out), w)
           | None \<Rightarrow> (None, w))))))))"

text \<open>The writes that a run from \<open>w\<close> to \<open>w'\<close> added to the log, and the property that the
  run left the active configuration file alone: same content, no write to its path.\<close>

definition writes_since :: "world \<Rightarrow> world \<Rightarrow> (path \<times> bytes) list" where
  "writes_since w w' = drop (length (writes w)) (writes w')"

definition active_untouched :: "world \<Rightarrow> world \<Rightarrow> bool" where
  "active_untouched w w' \<longleftrightarrow>
     files w' cfgPath = files w cfgPath \<and>
     take (length (writes w)) (writes w') = writes w \<and>
     cfgPath \<notin> set (map fst (writes_since w w'))"

text \<open>The run wrote the active configuration file once, and what it wrote is the
  candidate \<open>content\<close>, or the part of it that a failing write got through.\<close>

definition active_written :: "world \<Rightarrow> world \<Rightarrow> bytes \<Rightarrow> bool" where
  "active_written w w' content \<longleftrightarrow>
     take (length (writes w)) (writes w') = writes w \<and>
     (case filter (\<lambda>x. fst x = cfgPath) (writes_since w w') of
        [x] \<Rightarrow> take (length (snd x)) content = snd x \<and> files w' cfgPath = Some (snd x)
      | _ \<Rightarrow> False)"

section \<open>Example inputs\<close>

text \<open>
  An environment in which every file operation succeeds and the worker binary accepts,
  or rejects, every candidate; a configuration with nothing set; a file system holding
  an active configuration.
\<close>

definition example_env :: "bool \<Rightarrow> env" where
  "example_env accept =
     \<lparr>TempDir = ''/tmp'', nextRandom = (\<lambda>n. ''1''), create_fails = (\<lambda>p. False),
      write_result = (\<lambda>p d. Written),
      nginx_test = (\<lambda>b. if accept then None else Some ''[emerg]''),
      nginx_reload = None,
      t_Write = (\<lambda>cfg servers. Some ''events {}''),
      t_Write_legacy = (\<lambda>cfg maxOpenFiles redirectServers servers. Some ''events {}''),
      GetSecret = (\<lambda>name. None), DefaultSSLDirectory = ''/etc/ingress-controller/ssl'',
      opentracing_json = (\<lambda>cfg. Some ''{}''), verbose = True, gRPCServer_nil = True,
      RlimitMaxNumFiles = 1048576, atoi_WorkerProcesses = Some 1, sysctlFSFileMax = 1048576\<rparr>"

text \<open>
  The accepting environment, except that the worker binary accepts the rendered candidate
  only and the write to the active configuration file fails after three bytes.
\<close>

definition example_env_truncating :: env where
  "example_env_truncating =
     (example_env True)
       \<lparr>write_result := (\<lambda>p d. if p = cfgPath then Truncated 3 else Written),
        nginx_test := (\<lambda>b. if b = Some ''events {}'' then None else Some ''[emerg]'')\<rparr>"

definition example_cfg :: Configuration where
  "example_cfg = \<lparr>ServerNameHashBucketSize = 0, ServerNameHashMaxSize = 0, MaxWorkerOpenFiles = 0,
     MaxWorkerConnections = 0, SSLDHParam = []\<rparr>"

definition example_world :: world where
  "example_world = \<lparr>files = [cfgPath \<mapsto> ''old''], writes = [], temps = 0\<rparr>"

section \<open>Auxiliary notions for the proofs\<close>

text \<open>
  The bit of a value at a position, read with sign extension beyond bit 63; one step
  \<open>v |= v >> n\<close> of \<open>nextPowerOf2\<close>; and its five steps together.
\<close>

definition sbit :: "go_int \<Rightarrow> nat \<Rightarrow> bool" where
  "sbit v i = bit v (min i 63)"

definition or_shift :: "nat \<Rightarrow> go_int \<Rightarrow> go_int" where
  "or_shift n v = v OR signed_drop_bit n v"

definition fill :: "go_int \<Rightarrow> go_int" where
  "fill v = or_shift 16 (or_shift 8 (or_shift 4 (or_shift 2 (or_shift 1 v))))"

text \<open>The name that the legacy loop pairs with a hostname flagged for the www redirect.\<close>

definition paired_name :: "string \<Rightarrow> string" where
  "paired_name h = (if HasPrefix h ''www.'' then TrimLeft h ''www.'' else ''www.'' @ h)"

section \<open>The bit-doubling technique\<close>

lemma shift_index:
  "(if 64 - n \<le> min k 63 \<and> min k 63 < 64 then 63 else n + min k 63) = min (k + n) (63::nat)"
  by arith

lemma sbit_or_shift: "sbit (or_shift n v) k \<longleftrightarrow> sbit v k \<or> sbit v (k + n)"
proof -
  have "bit (signed_drop_bit n v) (min k 63)
      = bit v (if 64 - n \<le> min k 63 \<and> min k 63 < 64 then 63 else n + min k 63)"
    by (simp only: bit_signed_drop_bit_iff) simp
  also have "\<dots> = bit v (min (k + n) 63)"
    by (simp only: shift_index)
  finally show ?thesis
    by (simp add: sbit_def or_shift_def bit_or_iff)
qed

lemma ex_less_double:
  "(\<exists>j<2 * n. P (k + j)) \<longleftrightarrow> (\<exists>j<n. P (k + j)) \<or> (\<exists>j<n. P (k + n + j))" for n :: nat
proof
  assume "\<exists>j<2 * n. P (k + j)"
  then obtain j where j: "j < 2 * n" "P (k + j)" by blast
  show "(\<exists>j<n. P (k + j)) \<or> (\<exists>j<n. P (k + n + j))"
  proof (cases "j < n")
    case True with j show ?thesis by blast
  next
    case False
    with j have "j - n < n" "P (k + n + (j - n))" by simp_all
    then show ?thesis by blast
  qed
next
  assume "(\<exists>j<n. P (k + j)) \<or> (\<exists>j<n. P (k + n + j))"
  then show "\<exists>j<2 * n. P (k + j)"
  proof
    assume "\<exists>j<n. P (k + j)"
    then obtain j where "j < n" "P (k + j)" by blast
    then have "j < 2 * n" by simp
    with \<open>P (k + j)\<close> show ?thesis by blast
  next
    assume "\<exists>j<n. P (k + n + j)"
    then obtain j where "j < n" "P (k + n + j)" by blast
    then have "n + j < 2 * n" "P (k + (n + j))" by (simp_all add: add.assoc)
    then show ?thesis by blast
  qed
qed


lemma nextPowerOf2_fill: "nextPowerOf2 v = fill (v - 1) + 1"
  by (simp add: nextPowerOf2_def fill_def or_shift_def Let_def)

lemma or_shift_window:
  assumes "\<And>k. sbit w k \<longleftrightarrow> (\<exists>j<n. sbit v (k + j))" and "m = 2 * n"
  shows "sbit (or_shift n w) k \<longleftrightarrow> (\<exists>j<m. sbit v (k + j))"
  by (simp only: sbit_or_shift assms ex_less_double [of n "sbit v" k])

lemma sbit_fill: "sbit (fill v) k \<longleftrightarrow> (\<exists>j<32. sbit v (k + j))"
proof -
  have s0: "sbit v k \<longleftrightarrow> (\<exists>j<1. sbit v (k + j))" for k
    by simp
  have s1: "sbit (or_shift 1 v) k \<longleftrightarrow> (\<exists>j<2. sbit v (k + j))" for k
    by (rule or_shift_window [where n = 1]) (rule s0, simp)
  have s2: "sbit (or_shift 2 (or_shift 1 v)) k \<longleftrightarrow> (\<exists>j<4. sbit v (k + j))" for k
    by (rule or_shift_window [where n = 2]) (rule s1, simp)
  have s3: "sbit (or_shift 4 (or_shift 2 (or_shift 1 v))) k
      \<longleftrightarrow> (\<exists>j<8. sbit v (k + j))" for k
    by (rule or_shift_window [where n = 4]) (rule s2, simp)
  have s4: "sbit (or_shift 8 (or_shift 4 (or_shift 2 (or_shift 1 v)))) k
      \<longleftrightarrow> (\<exists>j<16. sbit v (k + j))" for k
    by (rule or_shift_window [where n = 8]) (rule s3, simp)
  show ?thesis
    unfolding fill_def by (rule or_shift_window [where n = 16]) (rule s4, simp)
qed

lemma bit_fill: "k < 64 \<Longrightarrow> bit (fill v) k \<longleftrightarrow> (\<exists>j<32. sbit v (k + j))"
  using sbit_fill [of v k] by (simp add: sbit_def min_def)



lemma bit_nat_le: "bit (m::nat) h \<Longrightarrow> 2 ^ h \<le> m"
proof -
  assume "bit m h"
  then have "odd (m div 2 ^ h)" by (simp add: bit_nat_def)
  then have "m div 2 ^ h \<noteq> 0" by (metis even_zero)
  then show ?thesis
    by (metis div_less not_le)
qed

lemma bit_word_le: "bit (w :: go_int) h \<Longrightarrow> 2 ^ h \<le> unat w"
  by (rule bit_nat_le) (simp add: bit_unsigned_iff)

lemma upper_clear_less:
  assumes "\<And>i. L \<le> i \<Longrightarrow> \<not> bit (w :: go_int) i"
  shows "unat w < 2 ^ L"
proof -
  have "take_bit L (unat w) = unat w"
  proof (rule bit_eqI)
    fix i
    have "bit w i \<Longrightarrow> i < L"
      using assms [of i] by (cases "i < L") simp_all
    then show "bit (take_bit L (unat w)) i \<longleftrightarrow> bit (unat w) i"
      by (auto simp: bit_take_bit_iff bit_unsigned_iff)
  qed
  then show ?thesis
    by (simp add: take_bit_nat_eq_self_iff)
qed

lemma less_upper_clear: "unat (w :: go_int) < 2 ^ L \<Longrightarrow> L \<le> i \<Longrightarrow> \<not> bit w i"
proof
  assume "unat w < 2 ^ L" "L \<le> i" "bit w i"
  from bit_word_le [OF \<open>bit w i\<close>] have "(2::nat) ^ i \<le> unat w" .
  moreover have "(2::nat) ^ L \<le> 2 ^ i" using \<open>L \<le> i\<close> by simp
  ultimately show False using \<open>unat w < 2 ^ L\<close> by linarith
qed








lemma sint_nonneg_unat: "0 \<le> sint (w :: go_int) \<Longrightarrow> sint w = int (unat w)"
proof -
  assume "0 \<le> sint w"
  moreover have "sint w < 2 ^ 63" using sint_lt [of w] by simp
  ultimately have "take_bit 64 (sint w) = sint w"
    by (simp add: take_bit_int_eq_self)
  then show ?thesis using uint_sint [of w] by simp
qed

lemma sint_small_unat: "unat (w :: go_int) < 2 ^ 63 \<Longrightarrow> sint w = int (unat w)"
proof -
  assume "unat w < 2 ^ 63"
  then have "int (unat w) < int (2 ^ 63)" by (simp only: of_nat_less_iff)
  then have "uint w < 2 ^ 63" by (simp only: uint_nat of_nat_power of_nat_numeral)
  moreover have "- (2 ^ 63) \<le> uint w"
    by (rule order_trans [of _ 0]) simp_all
  ultimately have "signed_take_bit 63 (uint w) = uint w"
    by (rule signed_take_bit_int_eq_self [rotated])
  then show ?thesis using sint_uint [of w] by simp
qed

lemma sint_word_of_int_self:
  "- (2 ^ 63) \<le> k \<Longrightarrow> k < 2 ^ 63 \<Longrightarrow> sint (word_of_int k :: go_int) = k"
  by (simp add: sint_uint uint_word_of_int_eq signed_take_bit_take_bit signed_take_bit_int_eq_self)

section \<open>The hash bucket size\<close>

lemma and_not_7_int: "(word_of_int x :: go_int) AND NOT 7 = word_of_int ((x div 8) * 8)"
proof -
  define y where "y = (x div 8) * 8"
  have seven: "(7 :: go_int) = mask 3" by (simp add: mask_eq_exp_minus_1)
  have "y = push_bit 3 (drop_bit 3 x)"
    by (simp add: y_def push_bit_eq_mult drop_bit_eq_div)
  then have y: "bit y k \<longleftrightarrow> 3 \<le> k \<and> bit x k" for k
    by (auto simp: bit_push_bit_iff bit_drop_bit_eq)
  have "(word_of_int x :: go_int) AND NOT (mask 3) = word_of_int y"
    by (rule bit_word_eqI)
      (auto simp: bit_and_iff bit_not_iff bit_mask_iff bit_word_of_int_iff y not_less)
  then show ?thesis by (simp only: seven y_def)
qed

lemma nginxHashBucketSize_raw:
  "nginxHashBucketSize longest = nextPowerOf2 (word_of_int (16 + ((sint longest + 9) div 8) * 8))"
proof -
  have "longest + 2 + 8 - 1 = (word_of_int (sint longest + 9) :: go_int)"
    by simp
  then have "(longest + 2 + 8 - 1) AND NOT (8 - 1) = (word_of_int (((sint longest + 9) div 8) * 8) :: go_int)"
    using and_not_7_int [of "sint longest + 9"] by (simp add: ac_simps)
  then show ?thesis
    by (simp add: nginxHashBucketSize_def Let_def ac_simps)
qed




section \<open>Properties of \<open>nextPowerOf2\<close>\<close>






lemma fill_all_ones:
  assumes "unat u < 2 ^ 32 - 1"
  shows "fill (NOT u) = - 1"
proof (rule bit_word_eqI)
  fix k assume "k < LENGTH(64)"
  then have k: "k < 64" by simp
  from assms have u32: "unat u < 2 ^ 32" by simp
  have hi: "\<not> bit u i" if "32 \<le> i" for i
    using less_upper_clear [OF u32 that] .
  have "\<exists>j<32. sbit (NOT u) (k + j)"
  proof (cases "k = 0")
    case False
    then have "32 \<le> min (k + 31) 63" by simp
    from hi [OF this] have "sbit (NOT u) (k + 31)"
      by (simp add: sbit_def bit_not_iff)
    then show ?thesis by (intro exI [of _ 31]) simp
  next
    case True
    have "\<exists>j<32. \<not> bit u j"
    proof (rule ccontr)
      assume "\<not> (\<exists>j<32. \<not> bit u j)"
      then have lo: "bit u j" if "j < 32" for j using that by blast
      have "u = mask 32"
      proof (rule bit_word_eqI)
        fix i assume "i < LENGTH(64)"
        show "bit u i \<longleftrightarrow> bit (mask 32 :: go_int) i"
          using lo [of i] hi [of i] by (cases "i < 32") (simp_all add: bit_mask_iff)
      qed
      then have "unat u = 2 ^ 32 - 1"
        by (simp add: mask_eq_exp_minus_1)
      with assms show False by simp
    qed
    then obtain j where "j < 32" "\<not> bit u j" by blast
    then have "sbit (NOT u) (0 + j)" by (simp add: sbit_def bit_not_iff min_def)
    with \<open>j < 32\<close> True show ?thesis by blast
  qed
  with k show "bit (fill (NOT u)) k \<longleftrightarrow> bit (- 1 :: go_int) k"
    by (simp add: bit_fill)
qed

text \<open>
  C10, as amended.  For every \<open>v\<close> with \<open>-2^32 + 2 \<le> v \<le> 0\<close>, \<open>nextPowerOf2 v\<close> is 0.
\<close>

theorem nextPowerOf2_nonpositive:
  "- (2 ^ 32) + 2 \<le> sint v \<Longrightarrow> sint v \<le> 0 \<Longrightarrow> nextPowerOf2 v = 0"
proof -
  assume v: "- (2 ^ 32) + 2 \<le> sint v" "sint v \<le> 0"
  define u where "u = - v"
  have "sint u = - sint v"
  proof -
    have "sint u = signed_take_bit 63 (- sint v)"
      unfolding u_def by (simp add: sint_word_minus)
    also have "\<dots> = - sint v"
      using v by (intro signed_take_bit_int_eq_self) simp_all
    finally show ?thesis .
  qed
  with v have su: "0 \<le> sint u" "sint u \<le> 2 ^ 32 - 2" by simp_all
  then have "int (unat u) < int (2 ^ 32 - 1)" by (simp add: sint_nonneg_unat)
  then have "unat u < 2 ^ 32 - 1" by (simp only: of_nat_less_iff)
  from fill_all_ones [OF this] have "fill (NOT u) = - 1" .
  moreover have "v - 1 = NOT u" by (simp add: u_def not_eq_complement)
  ultimately show ?thesis by (simp add: nextPowerOf2_fill)
qed

theorem nextPowerOf2_nonpositive_witness:
  "- (2 ^ 32) + 2 \<le> sint (- 4294967294 :: go_int) \<and> sint (- 4294967294 :: go_int) \<le> 0 \<and>
   nextPowerOf2 (- 4294967294) = 0"
  using nextPowerOf2_nonpositive [of "- 4294967294"] by simp

text \<open>
  C10 as stated fails on the 64-bit \<open>int\<close>: \<open>-2^32 + 1\<close> is sent to \<open>-1\<close> and the least
  \<open>int\<close> to itself.
\<close>

theorem nextPowerOf2_nonpositive_counterexample:
  "sint (- 4294967295 :: go_int) \<le> 0 \<and> nextPowerOf2 (- 4294967295) = - 1 \<and>
   nextPowerOf2 (- 4294967295) \<noteq> 0 \<and>
   nextPowerOf2 (- 9223372036854775808) = - 9223372036854775808"
  by (simp add: nextPowerOf2_def)



section \<open>Monotonicity of the hash bucket size\<close>

lemma top_bit:
  assumes "(v :: go_int) \<noteq> 0"
  shows "\<exists>h. bit v h \<and> (\<forall>i>h. \<not> bit v i)"
proof -
  define S where "S = {i. bit v i}"
  have fin: "finite S"
  proof (rule finite_subset)
    show "S \<subseteq> {..<64}" using bit_imp_le_length [of v] by (auto simp: S_def)
  qed simp
  have ne: "S \<noteq> {}"
  proof
    assume "S = {}"
    then have "v = 0" by (intro bit_word_eqI) (simp add: S_def)
    with assms show False ..
  qed
  define h where "h = Max S"
  have hS: "bit v h" using Max_in [OF fin ne] by (simp add: h_def S_def)
  have hmax: "i \<le> h" if "bit v i" for i
    using Max_ge [OF fin, of i] that by (simp add: h_def S_def)
  have "\<not> bit v i" if "h < i" for i using hmax [of i] that by auto
  with hS show ?thesis by blast
qed

lemma bit_uint_le: "bit (w :: go_int) h \<Longrightarrow> 2 ^ h \<le> uint w"
proof -
  assume "bit w h"
  then have "2 ^ h \<le> unat w" by (rule bit_word_le)
  then have "int (2 ^ h) \<le> int (unat w)" by (simp only: of_nat_le_iff)
  then show ?thesis by (simp only: of_nat_power of_nat_numeral uint_nat [symmetric])
qed

lemma upper_clear_uint:
  assumes "\<And>i. h < i \<Longrightarrow> \<not> bit (w :: go_int) i"
  shows "uint w < 2 ^ Suc h"
proof -
  have "unat w < 2 ^ Suc h" by (rule upper_clear_less) (simp add: assms)
  then have "int (unat w) < int (2 ^ Suc h)" by (simp only: of_nat_less_iff)
  then show ?thesis by (simp only: of_nat_power of_nat_numeral uint_nat [symmetric])
qed

lemma fill_window:
  assumes hb: "bit v h" and top: "\<And>i. h < i \<Longrightarrow> \<not> bit v i" and h: "h < 63"
    and win: "\<And>k. k \<le> h \<Longrightarrow> \<exists>j<32. bit v (k + j)"
  shows "fill v = mask (Suc h)"
proof (rule bit_word_eqI)
  fix k assume "k < LENGTH(64)"
  then have k: "k < 64" by simp
  have sb: "sbit v i \<longleftrightarrow> bit v i" for i
  proof (cases "i \<le> 63")
    case True then show ?thesis by (simp add: sbit_def min_def)
  next
    case False
    then have "\<not> bit v i" "\<not> bit v 63" using top h by simp_all
    with False show ?thesis by (simp add: sbit_def min_def)
  qed
  have "(\<exists>j<32. bit v (k + j)) \<longleftrightarrow> k < Suc h"
  proof
    assume "\<exists>j<32. bit v (k + j)"
    then obtain j where "bit v (k + j)" by blast
    with top [of "k + j"] have "\<not> h < k + j" by blast
    then show "k < Suc h" by simp
  next
    assume "k < Suc h"
    then have "k \<le> h" by simp
    then show "\<exists>j<32. bit v (k + j)" by (rule win)
  qed
  with k h show "bit (fill v) k \<longleftrightarrow> bit (mask (Suc h) :: go_int) k"
    by (simp add: bit_fill sb bit_mask_iff)
qed


lemma bit_2p: "n < 64 \<Longrightarrow> bit (2 ^ n :: go_int) i \<longleftrightarrow> i = n"
  by (auto simp: bit_exp_iff)

lemma window_cases:
  assumes low: "\<And>i. i < 3 \<Longrightarrow> bit (m :: go_int) i" and ub: "uint m < 2 ^ 36 + 2 ^ 35"
  shows "(\<exists>h<37. bit m h \<and> (\<forall>i>h. \<not> bit m i) \<and> fill m = mask (Suc h))
    \<or> m = 2 ^ 35 + 7 \<or> m = 2 ^ 36 + 7 \<or> m = 2 ^ 36 + 15"
proof -
  have b2: "bit m 2" by (rule low) simp
  then have "m \<noteq> 0" by auto
  from top_bit [OF this] obtain h where hb: "bit m h" and top: "\<And>i. h < i \<Longrightarrow> \<not> bit m i"
    by blast
  from top [of 2] b2 have h2: "2 \<le> h" by (cases "h < 2") simp_all
  have "(2::int) ^ h \<le> uint m" by (rule bit_uint_le [OF hb])
  with ub have "(2::int) ^ h < 2 ^ 37" by simp
  then have h37: "h < 37" by (rule power_less_imp_less_exp [rotated]) simp
  have lowwin: "\<exists>j<32. bit m (k + j)" if "k \<le> 2" for k
  proof -
    from that have "2 - k < 32" "k + (2 - k) = 2" by simp_all
    with b2 show ?thesis by metis
  qed
  have topwin: "\<exists>j<32. bit m (k + j)" if "k \<le> h" "h < k + 32" for k
  proof -
    from that have "h - k < 32" "k + (h - k) = h" by simp_all
    with hb show ?thesis by metis
  qed
  have midwin: "\<exists>j<32. bit m (k + j)" if "bit m i" "k \<le> i" "i < k + 32" for k i
  proof -
    from that have "i - k < 32" "k + (i - k) = i" by simp_all
    with that(1) show ?thesis by metis
  qed
  define p3 p35 p36 :: go_int where "p3 = 2 ^ 3" and "p35 = 2 ^ 35" and "p36 = 2 ^ 36"
  have p3: "bit p3 i \<longleftrightarrow> i = 3" and p35: "bit p35 i \<longleftrightarrow> i = 35"
    and p36: "bit p36 i \<longleftrightarrow> i = 36" for i
    unfolding p3_def p35_def p36_def
    using bit_2p [of 3 i] bit_2p [of 35 i] bit_2p [of 36 i] by simp_all
  have exact: ?thesis if "\<And>k. k \<le> h \<Longrightarrow> \<exists>j<32. bit m (k + j)"
  proof -
    from h37 have "h < 63" by simp
    from fill_window [OF hb top this that] have "fill m = mask (Suc h)" .
    with hb top h37 show ?thesis by blast
  qed
  consider "h \<le> 34" | "h = 35" | "h = 36" using h37 by linarith
  then show ?thesis
  proof cases
    case 1
    show ?thesis
    proof (rule exact)
      fix k assume "k \<le> h"
      show "\<exists>j<32. bit m (k + j)"
      proof (cases "k \<le> 2")
        case True then show ?thesis by (rule lowwin)
      next
        case False
        with 1 \<open>k \<le> h\<close> show ?thesis by (intro topwin) simp_all
      qed
    qed
  next
    case 2
    show ?thesis
    proof (cases "\<exists>i. 3 \<le> i \<and> i \<le> 34 \<and> bit m i")
      case True
      then obtain i where i: "3 \<le> i" "i \<le> 34" "bit m i" by blast
      show ?thesis
      proof (rule exact)
        fix k assume "k \<le> h"
        consider "k \<le> 2" | "k = 3" | "4 \<le> k" by linarith
        then show "\<exists>j<32. bit m (k + j)"
        proof cases
          case 1 then show ?thesis by (rule lowwin)
        next
          case 2 with i show ?thesis by (intro midwin [of i]) simp_all
        next
          case 3 with \<open>h = 35\<close> \<open>k \<le> h\<close> show ?thesis by (intro topwin) simp_all
        qed
      qed
    next
      case False
      then have mid: "\<not> bit m i" if "3 \<le> i" "i \<le> 34" for i using that by blast
      have "m = p35 OR mask 3"
      proof (rule bit_word_eqI)
        fix i assume "i < LENGTH(64)"
        then have i64: "i < 64" by simp
        consider "i < 3" | "3 \<le> i \<and> i \<le> 34" | "i = 35" | "35 < i" by linarith
        then show "bit m i \<longleftrightarrow> bit (p35 OR mask 3) i"
        proof cases
          case 1 with low [of i] show ?thesis by (simp add: bit_or_iff bit_mask_iff)
        next
          case 2 with mid [of i] show ?thesis by (simp add: bit_or_iff bit_mask_iff p3 p35 p36)
        next
          case 3 with hb \<open>h = 35\<close> show ?thesis by (simp add: bit_or_iff bit_mask_iff p3 p35 p36)
        next
          case 4 with top [of i] \<open>h = 35\<close> show ?thesis by (simp add: bit_or_iff bit_mask_iff p3 p35 p36)
        qed
      qed
      then have "m = 2 ^ 35 + 7" by (simp add: p35_def mask_eq_exp_minus_1)
      then show ?thesis by blast
    qed
  next
    case 3
    show ?thesis
    proof (cases "\<exists>i. 4 \<le> i \<and> i \<le> 34 \<and> bit m i")
      case True
      then obtain i where i: "4 \<le> i" "i \<le> 34" "bit m i" by blast
      show ?thesis
      proof (rule exact)
        fix k assume "k \<le> h"
        consider "k \<le> 2" | "k = 3 \<or> k = 4" | "5 \<le> k" by linarith
        then show "\<exists>j<32. bit m (k + j)"
        proof cases
          case 1 then show ?thesis by (rule lowwin)
        next
          case 2 with i show ?thesis by (intro midwin [of i]) auto
        next
          case 3 with \<open>h = 36\<close> \<open>k \<le> h\<close> show ?thesis by (intro topwin) simp_all
        qed
      qed
    next
      case False
      then have mid: "\<not> bit m i" if "4 \<le> i" "i \<le> 34" for i using that by blast
      define c :: go_int where
        "c = p36 OR (if bit m 35 then p35 else 0) OR (if bit m 3 then p3 else 0) OR mask 3"
      have "m = c"
      proof (rule bit_word_eqI)
        fix i assume "i < LENGTH(64)"
        then have i64: "i < 64" by simp
        consider "i < 3" | "i = 3" | "4 \<le> i \<and> i \<le> 34" | "i = 35" | "i = 36" | "36 < i"
          by linarith
        then show "bit m i \<longleftrightarrow> bit c i"
        proof cases
          case 1 with low [of i] show ?thesis
            by (simp add: c_def bit_or_iff bit_mask_iff)
        next
          case 2 then show ?thesis by (simp add: c_def bit_or_iff bit_mask_iff p3 p35 p36)
        next
          case 3 with mid [of i] show ?thesis
            by (simp add: c_def bit_or_iff bit_mask_iff p3 p35 p36)
        next
          case 4 then show ?thesis by (simp add: c_def bit_or_iff bit_mask_iff p3 p35 p36)
        next
          case 5 with hb \<open>h = 36\<close> show ?thesis
            by (simp add: c_def bit_or_iff bit_mask_iff p3 p35 p36)
        next
          case 6 with top [of i] \<open>h = 36\<close> show ?thesis
            by (simp add: c_def bit_or_iff bit_mask_iff p3 p35 p36)
        qed
      qed
      have n35: "\<not> bit m 35"
      proof
        assume b35: "bit m 35"
        have "2 ^ 36 + 2 ^ 35 \<le> uint c"
        proof (cases "bit m 3")
          case True
          with b35 have "c = 2 ^ 36 + 2 ^ 35 + 15"
            by (simp add: c_def p3_def p35_def p36_def mask_eq_exp_minus_1)
          then show ?thesis by simp
        next
          case False
          with b35 have "c = 2 ^ 36 + 2 ^ 35 + 7"
            by (simp add: c_def p3_def p35_def p36_def mask_eq_exp_minus_1)
          then show ?thesis by simp
        qed
        with ub \<open>m = c\<close> show False by simp
      qed
      show ?thesis
      proof (cases "bit m 3")
        case True
        with n35 have "c = 2 ^ 36 + 15" by (simp add: c_def p3_def p35_def p36_def mask_eq_exp_minus_1)
        with \<open>m = c\<close> have "m = 2 ^ 36 + 15" by (rule trans)
        then show ?thesis by blast
      next
        case False
        with n35 have "c = 2 ^ 36 + 7" by (simp add: c_def p3_def p35_def p36_def mask_eq_exp_minus_1)
        with \<open>m = c\<close> have "m = 2 ^ 36 + 7" by (rule trans)
        then show ?thesis by blast
      qed
    qed
  qed
qed

lemma sint_2p_63: "L < 63 \<Longrightarrow> sint (2 ^ L :: go_int) = 2 ^ L"
proof -
  assume "L < 63"
  then have "(2::int) ^ L < 2 ^ 63" by (rule power_strict_increasing) simp
  moreover have "- (2 ^ 63) \<le> (2::int) ^ L" by (rule order_trans [of _ 0]) simp_all
  ultimately have "sint (word_of_int (2 ^ L) :: go_int) = 2 ^ L"
    by (rule sint_word_of_int_self [rotated])
  then show ?thesis by simp
qed

lemma nextPowerOf2_raw:
  assumes "24 \<le> r" and "r \<le> 2 ^ 36 + 2 ^ 35" and "r mod 8 = 0"
  shows "\<exists>h. 2 ^ h < r \<and> r \<le> 2 ^ Suc h \<and> sint (nextPowerOf2 (word_of_int r)) \<le> 2 ^ Suc h \<and>
    (sint (nextPowerOf2 (word_of_int r)) = 2 ^ Suc h
      \<or> r = 2 ^ 35 + 8 \<or> r = 2 ^ 36 + 8 \<or> r = 2 ^ 36 + 16)"
proof -
  define m :: go_int where "m = word_of_int (r - 1)"
  have "uint m = take_bit 64 (r - 1)"
    unfolding m_def by (simp only: uint_word_of_int_eq) simp
  also have "\<dots> = r - 1"
    using assms(1,2) by (simp add: take_bit_int_eq_self)
  finally have um: "uint m = r - 1" .
  have "(r - 1) mod 8 = 7" using assms(3) by presburger
  then have t3: "take_bit 3 (r - 1) = mask 3"
    by (simp add: take_bit_eq_mod mask_eq_exp_minus_1)
  have low: "bit m i" if "i < 3" for i
  proof -
    have "bit (take_bit 3 (r - 1)) i \<longleftrightarrow> bit (mask 3 :: int) i" by (simp only: t3)
    with that have "bit (r - 1) i" by (simp add: bit_take_bit_iff bit_mask_iff)
    with that show ?thesis unfolding m_def by (simp only: bit_word_of_int_iff) simp
  qed
  have ub: "uint m < 2 ^ 36 + 2 ^ 35" using assms(2) by (simp add: um)
  have np: "nextPowerOf2 (word_of_int r) = fill m + 1"
    by (simp add: nextPowerOf2_fill m_def)
  from window_cases [OF low ub]
  consider h where "h < 37" "bit m h" "\<forall>i>h. \<not> bit m i" "fill m = mask (Suc h)"
    | "m = 2 ^ 35 + 7" | "m = 2 ^ 36 + 7" | "m = 2 ^ 36 + 15" by blast
  then show ?thesis
  proof cases
    case 1
    have "nextPowerOf2 (word_of_int r) = 2 ^ Suc h"
      by (simp only: np 1(4) inc_mask_eq_exp)
    moreover have "Suc h < 63" using 1(1) by simp
    ultimately have s: "sint (nextPowerOf2 (word_of_int r)) = 2 ^ Suc h"
      by (simp only: sint_2p_63)
    have "2 ^ h \<le> uint m" by (rule bit_uint_le [OF 1(2)])
    then have lo: "2 ^ h < r" by (simp add: um)
    have "uint m < 2 ^ Suc h" by (rule upper_clear_uint) (simp add: 1(3))
    then have hi: "r \<le> 2 ^ Suc h" by (simp add: um)
    from lo hi s show ?thesis by (intro exI [of _ h]) simp
  next
    case 2
    then have "uint m = 2 ^ 35 + 7" by simp
    then have r: "r = 2 ^ 35 + 8" by (simp add: um)
    show ?thesis by (intro exI [of _ 35]) (simp add: r nextPowerOf2_def)
  next
    case 3
    then have "uint m = 2 ^ 36 + 7" by simp
    then have r: "r = 2 ^ 36 + 8" by (simp add: um)
    show ?thesis by (intro exI [of _ 36]) (simp add: r nextPowerOf2_def)
  next
    case 4
    then have "uint m = 2 ^ 36 + 15" by simp
    then have r: "r = 2 ^ 36 + 16" by (simp add: um)
    show ?thesis by (intro exI [of _ 36]) (simp add: r nextPowerOf2_def)
  qed
qed

lemma pow2_step:
  assumes "(2::int) ^ h < r" and "r \<le> 2 ^ K" and "(F::int) \<le> 2 ^ Suc h"
  shows "F \<le> 2 ^ K"
proof -
  from assms(1,2) have "(2::int) ^ h < 2 ^ K" by (rule less_le_trans)
  then have "h < K" by (rule power_less_imp_less_exp [rotated]) simp
  then have "Suc h \<le> K" by simp
  then have "(2::int) ^ Suc h \<le> 2 ^ K" by (rule power_increasing) simp
  with assms(3) show ?thesis by (rule order_trans)
qed

text \<open>
  C8, as amended.  For all \<open>a\<close> and \<open>b\<close> with \<open>0 \<le> a \<le> b \<le> 2^36 + 2^35 - 18 = 103079215086\<close>,
  \<open>nginxHashBucketSize a\<close> is at most \<open>nginxHashBucketSize b\<close>.  Up to there the raw size is at
  most \<open>2^36 + 2^35\<close>, and the bit-doubling either gives the next power of two or, at the raw
  sizes \<open>2^35 + 8\<close>, \<open>2^36 + 8\<close> and \<open>2^36 + 16\<close>, a smaller value that is still in order.  The
  bound cannot be raised: the next \<open>b\<close> is the one of the counterexample below.
\<close>

theorem nginxHashBucketSize_mono:
  "0 \<le> sint a \<Longrightarrow> sint a \<le> sint b \<Longrightarrow> sint b \<le> 2 ^ 36 + 2 ^ 35 - 18 \<Longrightarrow>
     sint (nginxHashBucketSize a) \<le> sint (nginxHashBucketSize b)"
proof -
  assume ab: "0 \<le> sint a" "sint a \<le> sint b" "sint b \<le> 2 ^ 36 + 2 ^ 35 - 18"
  define qa qb where "qa = (sint a + 9) div 8" and "qb = (sint b + 9) div 8"
  define ra rb where "ra = 16 + qa * 8" and "rb = 16 + qb * 8"
  define F where "F r = sint (nextPowerOf2 (word_of_int r))" for r
  have Fa: "sint (nginxHashBucketSize a) = F ra" and Fb: "sint (nginxHashBucketSize b) = F rb"
    by (simp_all only: nginxHashBucketSize_raw F_def ra_def rb_def qa_def qb_def)
  have q: "1 \<le> qa" "qa \<le> qb" "qb \<le> 2 ^ 33 + 2 ^ 32 - 2"
    using ab unfolding qa_def qb_def by simp_all
  then have ra: "24 \<le> ra" "ra \<le> 2 ^ 36 + 2 ^ 35" "ra mod 8 = 0"
    and rb: "24 \<le> rb" "rb \<le> 2 ^ 36 + 2 ^ 35" "rb mod 8 = 0"
    and le: "ra \<le> rb"
    unfolding ra_def rb_def by simp_all
  have below: "ra = rb \<or> ra \<le> rb - 8"
    using q(2) unfolding ra_def rb_def by (cases "qa = qb") simp_all
  have below': "ra = rb - 8 \<or> ra \<le> rb - 16" if "ra \<le> rb - 8"
    using that unfolding ra_def rb_def by (cases "qa = qb - 1") simp_all
  from nextPowerOf2_raw [OF ra] obtain ha where ha: "2 ^ ha < ra" "ra \<le> 2 ^ Suc ha"
    "F ra \<le> 2 ^ Suc ha" unfolding F_def by blast
  from nextPowerOf2_raw [OF rb] obtain hb where hb: "2 ^ hb < rb" "rb \<le> 2 ^ Suc hb"
    "F rb = 2 ^ Suc hb \<or> rb = 2 ^ 35 + 8 \<or> rb = 2 ^ 36 + 8 \<or> rb = 2 ^ 36 + 16"
    unfolding F_def by blast
  have F35: "F (2 ^ 35 + 8) = 2 ^ 36 - 8" and F36: "F (2 ^ 36 + 8) = 2 ^ 37 - 24"
    and F36': "F (2 ^ 36 + 16) = 2 ^ 37 - 16"
    by (simp_all add: F_def nextPowerOf2_def)
  from hb(3) have "F ra \<le> F rb"
  proof (elim disjE)
    assume e: "F rb = 2 ^ Suc hb"
    from le hb(2) have "ra \<le> 2 ^ Suc hb" by simp
    from pow2_step [OF ha(1) this ha(3)] show ?thesis by (simp only: e)
  next
    assume e: "rb = 2 ^ 35 + 8"
    from below show ?thesis
    proof
      assume "ra = rb" then show ?thesis by simp
    next
      assume "ra \<le> rb - 8"
      then have "ra \<le> 2 ^ 35" by (simp add: e)
      from pow2_step [OF ha(1) this ha(3)] have "F ra \<le> 2 ^ 35" .
      moreover have "F rb = 2 ^ 36 - 8" unfolding e by (rule F35)
      ultimately show ?thesis by simp
    qed
  next
    assume e: "rb = 2 ^ 36 + 8"
    from below show ?thesis
    proof
      assume "ra = rb" then show ?thesis by simp
    next
      assume "ra \<le> rb - 8"
      then have "ra \<le> 2 ^ 36" by (simp add: e)
      from pow2_step [OF ha(1) this ha(3)] have "F ra \<le> 2 ^ 36" .
      moreover have "F rb = 2 ^ 37 - 24" unfolding e by (rule F36)
      ultimately show ?thesis by simp
    qed
  next
    assume e: "rb = 2 ^ 36 + 16"
    from below show ?thesis
    proof
      assume "ra = rb" then show ?thesis by simp
    next
      assume "ra \<le> rb - 8"
      from below' [OF this] show ?thesis
      proof
        assume "ra = rb - 8"
        then have "ra = 2 ^ 36 + 8" by (simp add: e)
        then have "F ra = 2 ^ 37 - 24" by (simp only: F36)
        moreover have "F rb = 2 ^ 37 - 16" unfolding e by (rule F36')
        ultimately show ?thesis by simp
      next
        assume "ra \<le> rb - 16"
        then have "ra \<le> 2 ^ 36" by (simp add: e)
        from pow2_step [OF ha(1) this ha(3)] have "F ra \<le> 2 ^ 36" .
        moreover have "F rb = 2 ^ 37 - 16" unfolding e by (rule F36')
        ultimately show ?thesis by simp
      qed
    qed
  qed
  then show ?thesis by (simp only: Fa Fb)
qed


theorem nginxHashBucketSize_mono_witness:
  "0 \<le> sint (68719476742 :: go_int) \<and> sint (68719476742 :: go_int) \<le> sint (103079215086 :: go_int) \<and>
   sint (103079215086 :: go_int) \<le> 2 ^ 36 + 2 ^ 35 - 18 \<and>
   sint (nginxHashBucketSize 68719476742) \<le> sint (nginxHashBucketSize 103079215086)"
  using nginxHashBucketSize_mono [of 68719476742 103079215086] by simp

text \<open>
  C8 as stated fails on the 64-bit \<open>int\<close>: between \<open>2^36 + 6\<close> and \<open>2^36 + 2^35 - 17\<close> the
  bucket size drops from \<open>2^37\<close> to \<open>2^37 - 8\<close>.
\<close>

theorem nginxHashBucketSize_not_monotone:
  "0 \<le> sint (68719476742 :: go_int) \<and> sint (68719476742 :: go_int) \<le> sint (103079215087 :: go_int) \<and>
   nginxHashBucketSize 68719476742 = 137438953472 \<and>
   nginxHashBucketSize 103079215087 = 137438953464 \<and>
   \<not> sint (nginxHashBucketSize 68719476742) \<le> sint (nginxHashBucketSize 103079215087)"
  by (simp add: nginxHashBucketSize_def nextPowerOf2_def)


section \<open>Sizing of the server name hash tables\<close>

subsection \<open>The bucket size and a configured override\<close>

text \<open>
  In the current \<open>renderTemplate\<close> the effective bucket size is the computed one exactly
  when the computed one exceeds the configured one: an override is never reduced, and a
  smaller one is raised.
\<close>

lemma renderTemplate_bucket_size:
  "ServerNameHashBucketSize (renderTemplate_cfg rlimit cfg servers) =
     (let computed = nginxHashBucketSize (fst (servers_loop (0, 0) servers))
      in if ServerNameHashBucketSize cfg <s computed then computed
         else ServerNameHashBucketSize cfg)"
  by (simp add: renderTemplate_cfg_def Let_def split: prod.splits)


text \<open>The legacy \<open>OnUpdate\<close> replaces the configured size exactly when it is zero.\<close>

lemma legacy_bucket_size:
  "ServerNameHashBucketSize (fst (OnUpdate_cfg_legacy cfg servers)) =
     (if ServerNameHashBucketSize cfg = 0
      then nginxHashBucketSize (fst (servers_loop_legacy servers (0, 0, Map.empty) servers))
      else ServerNameHashBucketSize cfg)"
  by (simp add: OnUpdate_cfg_legacy_def Let_def case_prod_beta)


text \<open>
  C3.  The legacy \<open>OnUpdate\<close> computes the bucket size only when none is configured
  (\<open>cfg.ServerNameHashBucketSize == 0\<close>): with the server \<open>app.example.com\<close>, whose computed
  size is 64, a configured size of 16 stays 16.
\<close>

theorem legacy_bucket_size_not_raised:
  "nginxHashBucketSize (len ''app.example.com'') = 64 \<and>
   ServerNameHashBucketSize
     (fst (OnUpdate_cfg_legacy
        \<lparr>ServerNameHashBucketSize = 16, ServerNameHashMaxSize = 0, MaxWorkerOpenFiles = 0,
         MaxWorkerConnections = 0, SSLDHParam = []\<rparr>
        [\<lparr>Hostname = ''app.example.com'', Aliases = [], RedirectFromToWWW = False\<rparr>])) = 16"
  by (simp add: OnUpdate_cfg_legacy_def len_def nginxHashBucketSize_def nextPowerOf2_def Let_def word_sless_alt)


subsection \<open>The longest name\<close>

text \<open>
  In the current \<open>renderTemplate\<close>, \<open>longestName\<close> is the maximum of the name lengths: for
  each server the length of its hostname, plus 4 if it is flagged for the www redirect,
  and the length of each of its aliases (and 0, the initial value, for no name at all).
  A Go string is shorter than \<open>2^63 - 4\<close> bytes.
\<close>

lemma sint_len: "length s < 2 ^ 63 \<Longrightarrow> sint (len s) = int (length s)"
proof -
  assume a: "length s < 2 ^ 63"
  have "(2::nat) ^ 63 < 2 ^ 64" by simp
  with a have "length s < 2 ^ 64" by linarith
  then have "unat (len s) = length s"
    by (simp only: len_def unat_of_nat len_of_numeral_defs) simp
  with a show ?thesis by (simp add: sint_small_unat)
qed

lemma sint_len_plus_4: "length s + 4 < 2 ^ 63 \<Longrightarrow> sint (len s + 4) = int (length s) + 4"
proof -
  assume a: "length s + 4 < 2 ^ 63"
  have "len s + 4 = of_nat (length s + 4)" by (simp add: len_def)
  moreover have "(2::nat) ^ 63 < 2 ^ 64" by simp
  with a have "length s + 4 < 2 ^ 64" by linarith
  then have "unat (of_nat (length s + 4) :: go_int) = length s + 4"
    by (simp only: unat_of_nat len_of_numeral_defs) simp
  ultimately have "unat (len s + 4) = length s + 4" by simp
  with a show ?thesis by (simp add: sint_small_unat)
qed

lemma aliases_loop_max:
  "\<forall>al\<in>set as. length al < 2 ^ 63 \<Longrightarrow>
     sint (aliases_loop l as) = fold max (map (\<lambda>al. int (length al)) as) (sint l)"
proof (induction as arbitrary: l)
  case Nil
  then show ?case by simp
next
  case (Cons a as)
  then have "sint (len a) = int (length a)" by (simp add: sint_len)
  then have "sint (if l <s len a then len a else l) = max (int (length a)) (sint l)"
    by (simp add: word_sless_alt max_def)
  with Cons show ?case by simp
qed

lemma servers_loop_max:
  "\<forall>srv\<in>set servers. length (Hostname srv) + 4 < 2 ^ 63 \<and>
      (\<forall>al\<in>set (Aliases srv). length al < 2 ^ 63) \<Longrightarrow>
   sint (fst (servers_loop (l, b) servers)) =
     fold max (concat (map (\<lambda>srv. (int (length (Hostname srv)) + (if RedirectFromToWWW srv then 4 else 0))
                               # map (\<lambda>al. int (length al)) (Aliases srv)) servers)) (sint l)"
proof (induction servers arbitrary: l b)
  case Nil
  then show ?case by simp
next
  case (Cons srv servers)
  define h where "h = (if RedirectFromToWWW srv then len (Hostname srv) + 4 else len (Hostname srv))"
  from Cons.prems have bound: "length (Hostname srv) + 4 < 2 ^ 63" 
    and al: "\<forall>al\<in>set (Aliases srv). length al < 2 ^ 63" by simp_all
  then have "length (Hostname srv) < 2 ^ 63" by simp
  with bound have sh: "sint h = int (length (Hostname srv)) + (if RedirectFromToWWW srv then 4 else 0)"
    by (simp add: h_def sint_len sint_len_plus_4)
  have m: "sint (if l <s h then h else l) = max (sint h) (sint l)"
    by (simp add: word_sless_alt max_def)
  from Cons.prems have rest: "\<forall>srv\<in>set servers. length (Hostname srv) + 4 < 2 ^ 63 \<and>
      (\<forall>al\<in>set (Aliases srv). length al < 2 ^ 63)" by simp
  let ?f = "\<lambda>srv. (int (length (Hostname srv)) + (if RedirectFromToWWW srv then 4 else 0))
                # map (\<lambda>al. int (length al)) (Aliases srv)"
  have step: "servers_loop (l, b) (srv # servers)
      = servers_loop (aliases_loop (if l <s h then h else l) (Aliases srv), b + h) servers"
    by (simp add: Let_def h_def)
  have "sint (fst (servers_loop (l, b) (srv # servers)))
      = fold max (concat (map ?f servers))
          (sint (aliases_loop (if l <s h then h else l) (Aliases srv)))"
    by (simp only: step Cons.IH [OF rest])
  also have "\<dots> = fold max (concat (map ?f servers))
          (fold max (map (\<lambda>al. int (length al)) (Aliases srv)) (max (sint h) (sint l)))"
    by (simp only: aliases_loop_max [OF al] m)
  also have "\<dots> = fold max (concat (map ?f (srv # servers))) (sint l)"
    by (simp add: sh)
  finally show ?case .
qed



lemma renderTemplate_longest:
  assumes "\<forall>srv\<in>set servers. length (Hostname srv) + 4 < 2 ^ 63 \<and>
      (\<forall>al\<in>set (Aliases srv). length al < 2 ^ 63)"
  shows "sint (fst (servers_loop (0, 0) servers)) =
     Max (set (0 # concat (map (\<lambda>srv. (int (length (Hostname srv)) + (if RedirectFromToWWW srv then 4 else 0))
                                 # map (\<lambda>al. int (length al)) (Aliases srv)) servers)))"
  using servers_loop_max [OF assms, of 0 0] by (simp only: Max.set_eq_fold sint_0)

text \<open>
  C4.  The legacy loop takes the maximum of the hostname lengths only: for the server
  \<open>example.com\<close>, flagged for the www redirect, its \<open>longestName\<close> is 11 and the bucket
  size 32, where the claim (and the current loop) counts the 15 bytes of
  \<open>www.example.com\<close>, for a bucket size of 64.
\<close>

theorem legacy_longest_ignores_redirect:
  "fst (servers_loop_legacy
      [\<lparr>Hostname = ''example.com'', Aliases = [], RedirectFromToWWW = True\<rparr>]
      (0, 0, Map.empty)
      [\<lparr>Hostname = ''example.com'', Aliases = [], RedirectFromToWWW = True\<rparr>]) = 11 \<and>
   fst (servers_loop (0, 0)
      [\<lparr>Hostname = ''example.com'', Aliases = [], RedirectFromToWWW = True\<rparr>]) = 15 \<and>
   nginxHashBucketSize 11 = 32 \<and> nginxHashBucketSize 15 = 64"
  by (simp add: len_def word_sless_alt nginxHashBucketSize_def nextPowerOf2_def)

subsection \<open>The maximum size\<close>

lemma servers_loop_bytes:
  "snd (servers_loop (l, b) servers) = b + sum_list (map (\<lambda>srv. len (Hostname srv) + (if RedirectFromToWWW srv then 4 else 0)) servers)"
  by (induction servers arbitrary: l b) (simp_all add: Let_def)

lemma servers_loop_legacy_bytes:
  "fst (snd (servers_loop_legacy all (l, b, r) servers))
     = b + sum_list (map (\<lambda>srv. len (Hostname srv)) servers)"
  by (induction servers arbitrary: l b r) (simp_all add: Let_def)


text \<open>
  C5, as amended.  The candidate for \<open>ServerNameHashMaxSize\<close> is \<open>nextPowerOf2\<close> of the sum,
  over the servers, of the hostname length plus 4 for a server flagged for the www
  redirect in the current \<open>renderTemplate\<close>, and of the plain hostname length in the legacy
  \<open>OnUpdate\<close>; in both the configured value is replaced by the candidate exactly when the
  candidate exceeds it.  For the single, unflagged server \<open>app.example.com\<close> and no
  configured value the result is \<open>nextPowerOf2 (len "app.example.com") = 16\<close>.
\<close>

theorem hash_max_size:
  "ServerNameHashMaxSize (renderTemplate_cfg rlimit cfg servers) =
     (let candidate = nextPowerOf2 (sum_list (map (\<lambda>srv. len (Hostname srv) + (if RedirectFromToWWW srv then 4 else 0))
                                              servers))
      in if ServerNameHashMaxSize cfg <s candidate then candidate else ServerNameHashMaxSize cfg) \<and>
   ServerNameHashMaxSize (fst (OnUpdate_cfg_legacy cfg servers)) =
     (let candidate = nextPowerOf2 (sum_list (map (\<lambda>srv. len (Hostname srv)) servers))
      in if ServerNameHashMaxSize cfg <s candidate then candidate else ServerNameHashMaxSize cfg) \<and>
   ServerNameHashMaxSize (renderTemplate_cfg rlimit (cfg\<lparr>ServerNameHashMaxSize := 0\<rparr>)
       [\<lparr>Hostname = ''app.example.com'', Aliases = [], RedirectFromToWWW = False\<rparr>])
     = nextPowerOf2 (len ''app.example.com'') \<and>
   ServerNameHashMaxSize (fst (OnUpdate_cfg_legacy (cfg\<lparr>ServerNameHashMaxSize := 0\<rparr>)
       [\<lparr>Hostname = ''app.example.com'', Aliases = [], RedirectFromToWWW = False\<rparr>]))
     = nextPowerOf2 (len ''app.example.com'') \<and>
   nextPowerOf2 (len ''app.example.com'') = 16"
proof -
  have a: "ServerNameHashMaxSize (renderTemplate_cfg rlimit cfg servers) =
     (let candidate = nextPowerOf2 (sum_list (map (\<lambda>srv. len (Hostname srv) + (if RedirectFromToWWW srv then 4 else 0))
                                              servers))
      in if ServerNameHashMaxSize cfg <s candidate then candidate else ServerNameHashMaxSize cfg)"
    for cfg servers
    by (simp add: renderTemplate_cfg_def Let_def case_prod_beta servers_loop_bytes)
  have b: "ServerNameHashMaxSize (fst (OnUpdate_cfg_legacy cfg servers)) =
     (let candidate = nextPowerOf2 (sum_list (map (\<lambda>srv. len (Hostname srv)) servers))
      in if ServerNameHashMaxSize cfg <s candidate then candidate else ServerNameHashMaxSize cfg)"
    for cfg servers
    by (simp add: OnUpdate_cfg_legacy_def Let_def case_prod_beta servers_loop_legacy_bytes)
  have c: "nextPowerOf2 (len ''app.example.com'') = 16"
    by (simp add: len_def nextPowerOf2_def)
  have d: "(0 :: go_int) <s 16" by (simp add: word_sless_alt)
  show ?thesis
    apply (intro conjI)
        apply (rule a)
       apply (rule b)
      apply (simp add: a c d)
     apply (simp add: b c d)
    apply (rule c)
    done
qed


text \<open>
  C5 as stated fails in the current \<open>renderTemplate\<close>: for the single server
  \<open>api.example.com\<close>, flagged for the www redirect, the result is \<open>nextPowerOf2 19 = 32\<close>
  and not \<open>nextPowerOf2 15 = 16\<close>.
\<close>

theorem hash_max_size_counts_redirect:
  "ServerNameHashMaxSize (renderTemplate_cfg 0
      \<lparr>ServerNameHashBucketSize = 0, ServerNameHashMaxSize = 0, MaxWorkerOpenFiles = 0,
       MaxWorkerConnections = 0, SSLDHParam = []\<rparr>
      [\<lparr>Hostname = ''api.example.com'', Aliases = [], RedirectFromToWWW = True\<rparr>]) = 32 \<and>
   nextPowerOf2 (len ''api.example.com'') = 16"
  by (simp add: renderTemplate_cfg_def len_def nextPowerOf2_def Let_def word_sless_alt)



subsection \<open>The redirect map of the legacy controller\<close>

text \<open>
  An entry of the redirect map is never overwritten, so the first flagged server that
  yields a paired name keeps it; and every entry comes from a flagged server, under the
  name the loop derives from its hostname, for which no server of the intent exists.
\<close>

lemma servers_loop_legacy_step:
  "servers_loop_legacy all (l, b, r) (srv # rest) =
     servers_loop_legacy all
       (if l <s len (Hostname srv) then len (Hostname srv) else l,
        b + len (Hostname srv),
        if RedirectFromToWWW srv \<and> r (paired_name (Hostname srv)) = None
           \<and> \<not> list_ex (\<lambda>esrv. Hostname esrv = paired_name (Hostname srv)) all
        then r(paired_name (Hostname srv) \<mapsto> Hostname srv)
        else r) rest"
  unfolding paired_name_def by (simp only: servers_loop_legacy.simps Let_def) simp

lemma legacy_redirect_first_wins:
  "r n = Some h \<Longrightarrow> snd (snd (servers_loop_legacy all (l, b, r) servers)) n = Some h"
proof (induction servers arbitrary: l b r)
  case Nil
  then show ?case by simp
next
  case (Cons srv rest)
  define pn where "pn = paired_name (Hostname srv)"
  define c where "c \<longleftrightarrow> RedirectFromToWWW srv \<and> r pn = None
           \<and> \<not> list_ex (\<lambda>esrv. Hostname esrv = pn) all"
  have "(if c then r(pn \<mapsto> Hostname srv) else r) n = Some h"
  proof (cases c)
    case True
    then have "r pn = None" by (simp add: c_def)
    with Cons.prems have "pn \<noteq> n" by auto
    with True Cons.prems show ?thesis by simp
  next
    case False
    with Cons.prems show ?thesis by simp
  qed
  then show ?case
    unfolding servers_loop_legacy_step c_def pn_def by (rule Cons.IH)
qed

lemma legacy_redirect_origin:
  "snd (snd (servers_loop_legacy all (l, b, r) servers)) n = Some h \<Longrightarrow>
     r n = Some h \<or>
     (\<exists>srv\<in>set servers. RedirectFromToWWW srv \<and> Hostname srv = h \<and>
        n = paired_name h \<and> \<not> list_ex (\<lambda>esrv. Hostname esrv = n) all)"
proof (induction servers arbitrary: l b r)
  case Nil
  then show ?case by simp
next
  case (Cons srv rest)
  define pn where "pn = paired_name (Hostname srv)"
  define c where "c \<longleftrightarrow> RedirectFromToWWW srv \<and> r pn = None
           \<and> \<not> list_ex (\<lambda>esrv. Hostname esrv = pn) all"
  define new where "new = (\<lambda>srvs :: Server list. \<exists>srv\<in>set srvs. RedirectFromToWWW srv \<and> Hostname srv = h \<and>
        n = paired_name h \<and> \<not> list_ex (\<lambda>esrv. Hostname esrv = n) all)"
  from Cons.prems have "(if c then r(pn \<mapsto> Hostname srv) else r) n = Some h \<or> new rest"
    unfolding servers_loop_legacy_step c_def pn_def new_def by (rule Cons.IH)
  then have "r n = Some h \<or> new (srv # rest)"
  proof
    assume "new rest"
    then have "new (srv # rest)" by (auto simp: new_def)
    then show ?thesis ..
  next
    assume rn: "(if c then r(pn \<mapsto> Hostname srv) else r) n = Some h"
    show ?thesis
    proof (cases "c \<and> pn = n")
      case True
      with rn have h: "Hostname srv = h" by simp
      from True have "RedirectFromToWWW srv" "\<not> list_ex (\<lambda>esrv. Hostname esrv = n) all"
        by (auto simp: c_def)
      moreover from True h have "n = paired_name h" by (simp add: pn_def)
      ultimately have "new (srv # rest)" using h by (simp add: new_def)
      then show ?thesis ..
    next
      case False
      with rn have "r n = Some h" by (cases c) simp_all
      then show ?thesis ..
    qed
  qed
  then show ?case by (simp only: new_def)
qed

text \<open>
  C6.  \<open>strings.TrimLeft(srv.Hostname, "www.")\<close> removes every leading \<open>w\<close> and \<open>.\<close>, not the
  prefix \<open>www.\<close>: the flagged server \<open>www.wiki.example.com\<close> is paired with
  \<open>iki.example.com\<close>, and \<open>wiki.example.com\<close> gets no redirect.
\<close>

theorem legacy_redirect_trims_too_much:
  "snd (OnUpdate_cfg_legacy cfg
      [\<lparr>Hostname = ''www.wiki.example.com'', Aliases = [], RedirectFromToWWW = True\<rparr>])
     ''iki.example.com'' = Some ''www.wiki.example.com'' \<and>
   snd (OnUpdate_cfg_legacy cfg
      [\<lparr>Hostname = ''www.wiki.example.com'', Aliases = [], RedirectFromToWWW = True\<rparr>])
     ''wiki.example.com'' = None"
  by (simp add: OnUpdate_cfg_legacy_def HasPrefix_def TrimLeft_def Let_def split: prod.splits)



section \<open>Worker limits\<close>












section \<open>The active configuration is replaced by validated content only\<close>

lemma active_untouched_iff:
  "active_untouched w w' \<longleftrightarrow>
     files w' cfgPath = files w cfgPath \<and>
     (\<exists>new. writes w' = writes w @ new \<and> cfgPath \<notin> fst ` set new)"
proof
  assume a: "active_untouched w w'"
  then have "writes w' = writes w @ writes_since w w'"
    unfolding active_untouched_def writes_since_def
    by (metis append_take_drop_id)
  with a show "files w' cfgPath = files w cfgPath \<and>
     (\<exists>new. writes w' = writes w @ new \<and> cfgPath \<notin> fst ` set new)"
    unfolding active_untouched_def by auto
next
  assume "files w' cfgPath = files w cfgPath \<and>
     (\<exists>new. writes w' = writes w @ new \<and> cfgPath \<notin> fst ` set new)"
  then show "active_untouched w w'"
    by (auto simp: active_untouched_def writes_since_def)
qed

lemma active_untouched_refl: "active_untouched w w"
  by (simp add: active_untouched_iff)

lemma active_untouched_trans:
  "active_untouched w w1 \<Longrightarrow> active_untouched w1 w2 \<Longrightarrow> active_untouched w w2"
  unfolding active_untouched_iff by auto

lemma WriteFile_untouched:
  "p \<noteq> cfgPath \<Longrightarrow> active_untouched w (snd (WriteFile e p d w))"
  by (simp add: WriteFile_def active_untouched_iff split: write_outcome.splits)

lemma WriteFile_ok:
  "WriteFile e p d w = (None, w') \<Longrightarrow>
     files w' = (files w)(p \<mapsto> d) \<and> writes w' = writes w @ [(p, d)]"
  by (auto simp: WriteFile_def split: write_outcome.splits)

lemma WriteFile_any:
  "files (snd (WriteFile e p d w)) = files w \<and> writes (snd (WriteFile e p d w)) = writes w
   \<or> (\<exists>k. files (snd (WriteFile e p d w)) = (files w)(p \<mapsto> take k d) \<and>
           writes (snd (WriteFile e p d w)) = writes w @ [(p, take k d)])"
proof (cases "write_result e p d")
  case Written
  then have "files (snd (WriteFile e p d w)) = (files w)(p \<mapsto> take (length d) d) \<and>
           writes (snd (WriteFile e p d w)) = writes w @ [(p, take (length d) d)]"
    by (simp add: WriteFile_def)
  then show ?thesis by blast
next
  case NotOpened
  then show ?thesis by (simp add: WriteFile_def)
next
  case (Truncated k)
  then have "files (snd (WriteFile e p d w)) = (files w)(p \<mapsto> take k d) \<and>
           writes (snd (WriteFile e p d w)) = writes w @ [(p, take k d)]"
    by (simp add: WriteFile_def)
  then show ?thesis by blast
qed

lemma Remove_untouched: "p \<noteq> cfgPath \<Longrightarrow> active_untouched w (Remove p w)"
  by (simp add: Remove_def active_untouched_iff)

lemma dash_not_cfgPath: "CHR ''-'' \<in> set p \<Longrightarrow> p \<noteq> cfgPath"
  by (auto simp: cfgPath_def)

lemma CreateTemp_try_untouched:
  "CHR ''-'' \<in> set pattern \<Longrightarrow> CreateTemp_try e dir pattern tries w = (r, w') \<Longrightarrow>
     active_untouched w w' \<and> r \<noteq> Some cfgPath"
proof (induction tries arbitrary: w)
  case 0
  then show ?case by (simp add: active_untouched_refl)
next
  case (Suc tries)
  define name where "name = joinPath dir (pattern @ nextRandom e (temps w))"
  define w1 where "w1 = w\<lparr>temps := Suc (temps w)\<rparr>"
  have "CHR ''-'' \<in> set name"
    using Suc.prems(1) by (simp add: name_def joinPath_def)
  then have ne: "name \<noteq> cfgPath" by (rule dash_not_cfgPath)
  have u1: "active_untouched w w1" by (simp add: w1_def active_untouched_iff)
  have step: "CreateTemp_try e dir pattern (Suc tries) w =
     (if files w1 name \<noteq> None then CreateTemp_try e dir pattern tries w1
      else if create_fails e name then (None, w1)
      else (Some name, w1\<lparr>files := (files w1)(name \<mapsto> [])\<rparr>))"
    by (simp add: Let_def name_def w1_def)
  show ?case
  proof (cases "files w1 name \<noteq> None")
    case True
    with step Suc.prems(2) have "CreateTemp_try e dir pattern tries w1 = (r, w')" by simp
    from Suc.IH [OF Suc.prems(1) this] u1 show ?thesis
      by (blast intro: active_untouched_trans)
  next
    case False
    show ?thesis
    proof (cases "create_fails e name")
      case True
      with False step Suc.prems(2) u1 show ?thesis by auto
    next
      case nofail: False
      with False step Suc.prems(2)
      have r: "r = Some name" and w': "w' = w1\<lparr>files := (files w1)(name \<mapsto> [])\<rparr>" by auto
      have "active_untouched w1 w'" using ne by (simp add: w' active_untouched_iff)
      with u1 have "active_untouched w w'" by (rule active_untouched_trans)
      with r ne show ?thesis by simp
    qed
  qed
qed

lemma CreateTemp_None: "CreateTemp e dir pattern w = (None, w') \<Longrightarrow>
    CHR ''-'' \<in> set pattern \<Longrightarrow> active_untouched w w'"
  unfolding CreateTemp_def using CreateTemp_try_untouched by blast

lemma CreateTemp_Some:
  assumes "CreateTemp e dir pattern w = (Some p, w')" and "CHR ''-'' \<in> set pattern"
  shows "p \<noteq> cfgPath \<and> active_untouched w w'"
  using CreateTemp_try_untouched [OF assms(2) assms(1) [unfolded CreateTemp_def]] by auto

lemma CreateTemp_fresh:
  "files w (joinPath dir (pattern @ nextRandom e (temps w))) = None \<Longrightarrow>
   \<not> create_fails e (joinPath dir (pattern @ nextRandom e (temps w))) \<Longrightarrow>
   CreateTemp_try e dir pattern (numeral n) w =
     (Some (joinPath dir (pattern @ nextRandom e (temps w))),
      w\<lparr>temps := Suc (temps w),
        files := (files w)(joinPath dir (pattern @ nextRandom e (temps w)) \<mapsto> [])\<rparr>)"
  by (simp add: numeral_eq_Suc Let_def)

lemma testTemplate_in_untouched:
  "active_untouched w (snd (testTemplate_in dir e cfg w))"
proof (cases "length cfg = 0")
  case True
  then show ?thesis by (simp add: testTemplate_in_def active_untouched_refl)
next
  case False
  show ?thesis
  proof (cases "CreateTemp e dir tempNginxPattern w")
    case (Pair r w1)
    show ?thesis
    proof (cases r)
      case None
      have "CHR ''-'' \<in> set tempNginxPattern" by (simp add: tempNginxPattern_def)
      with Pair None CreateTemp_None [of e dir tempNginxPattern w w1]
      have "active_untouched w w1" by simp
      with Pair None False show ?thesis
        by (simp add: testTemplate_in_def)
    next
      case (Some tmp)
      with Pair have ct: "CreateTemp e dir tempNginxPattern w = (Some tmp, w1)" by simp
      have "CHR ''-'' \<in> set tempNginxPattern" by (simp add: tempNginxPattern_def)
      from CreateTemp_Some [OF ct this] have tmp: "tmp \<noteq> cfgPath" and u1: "active_untouched w w1"
        by simp_all
      obtain r2 w2 where wf: "WriteFile e tmp cfg w1 = (r2, w2)" by (cases "WriteFile e tmp cfg w1")
      from WriteFile_untouched [OF tmp, of w1 e cfg] wf have u2: "active_untouched w1 w2" by simp
      have u12: "active_untouched w w2" using u1 u2 by (rule active_untouched_trans)
      have u3: "active_untouched w (Remove tmp w2)"
        using u12 Remove_untouched [OF tmp] by (rule active_untouched_trans)
      show ?thesis
        using False ct wf u12 u3
        by (simp add: testTemplate_in_def split: option.splits)
    qed
  qed
qed

lemma testTemplate_in_passed:
  assumes "testTemplate_in dir e cfg w = (None, w')"
  shows "nginx_test e (Some cfg) = None"
proof -
  from assms have ne: "length cfg \<noteq> 0"
    by (auto simp: testTemplate_in_def split: if_splits)
  obtain r w1 where ct: "CreateTemp e dir tempNginxPattern w = (r, w1)"
    by (cases "CreateTemp e dir tempNginxPattern w")
  with assms ne obtain tmp where r: "r = Some tmp"
    by (cases r) (auto simp: testTemplate_in_def)
  obtain r2 w2 where wf: "WriteFile e tmp cfg w1 = (r2, w2)" by (cases "WriteFile e tmp cfg w1")
  with assms ne ct r have r2: "r2 = None"
    by (cases r2) (auto simp: testTemplate_in_def)
  from WriteFile_ok [OF wf [unfolded r2]] have "files w2 tmp = Some cfg" by simp
  with assms ne ct r wf r2 show ?thesis
    by (auto simp: testTemplate_in_def split: option.splits)
qed


lemma active_writtenI:
  assumes "writes w' = writes w @ new" "filter (\<lambda>x. fst x = cfgPath) new = [(cfgPath, d)]"
    "take (length d) content = d" "files w' cfgPath = Some d"
  shows "active_written w w' content"
  using assms by (simp add: active_written_def writes_since_def)

lemma pem_not_cfgPath: "x @ ''.pem'' \<noteq> cfgPath"
proof
  assume "x @ ''.pem'' = cfgPath"
  then have "last (x @ ''.pem'') = last cfgPath" by simp
  then show False by (simp add: cfgPath_def)
qed

lemma getDHParam_not_cfgPath: "fst (getDHParam e cfg) \<noteq> cfgPath"
proof -
  have "[] \<noteq> cfgPath" by (simp add: cfgPath_def)
  moreover have "DefaultSSLDirectory e @ ''/'' @ nsSecName (SSLDHParam cfg) @ ''.pem'' \<noteq> cfgPath"
    using pem_not_cfgPath [of "DefaultSSLDirectory e @ ''/'' @ nsSecName (SSLDHParam cfg)"] by simp
  ultimately show ?thesis
    by (simp add: getDHParam_def split: option.splits)
qed

lemma generateTemplate_untouched:
  "active_untouched w (snd (generateTemplate e cfg servers w))"
  using getDHParam_not_cfgPath [of e cfg]
  by (auto simp: generateTemplate_def Let_def AddOrUpdateDHParam_def active_untouched_refl
      case_prod_beta intro: WriteFile_untouched)

lemma createOpentracingCfg_untouched:
  "active_untouched w (snd (createOpentracingCfg e cfg w))"
proof -
  have "''/etc/nginx/opentracing.json'' \<noteq> cfgPath" by (simp add: cfgPath_def)
  then show ?thesis
    by (auto simp: createOpentracingCfg_def active_untouched_refl split: option.splits
        intro: WriteFile_untouched)
qed

lemma OnUpdate_dhparam_legacy_untouched:
  "active_untouched w (snd (OnUpdate_dhparam_legacy e cfg w))"
proof -
  have "active_untouched w (snd (AddOrUpdateDHParam_legacy e n dh w))" for n dh
    using pem_not_cfgPath [of "DefaultSSLDirectory e @ ''/'' @ n"]
      WriteFile_untouched [of "DefaultSSLDirectory e @ ''/'' @ n @ ''.pem''" w e dh]
    by (auto simp: AddOrUpdateDHParam_legacy_def Let_def split: prod.splits option.splits)
  then have "AddOrUpdateDHParam_legacy e n dh w = (r, w') \<Longrightarrow> active_untouched w w'" for n dh r w'
    by (metis snd_conv)
  then show ?thesis
    by (auto simp: OnUpdate_dhparam_legacy_def active_untouched_refl
        split: option.splits prod.splits)
qed

lemma OnUpdate_diff_untouched:
  "active_untouched w (snd (OnUpdate_diff e content w))"
proof (cases "verbose e \<and> (case files w cfgPath of None \<Rightarrow> [] | Some b \<Rightarrow> b) \<noteq> content")
  case False
  then show ?thesis by (auto simp: OnUpdate_diff_def Let_def active_untouched_refl)
next
  case True
  show ?thesis
  proof (cases "CreateTemp e [] ''new-nginx-cfg'' w")
    case (Pair r w1)
    show ?thesis
    proof (cases r)
      case None
      have "CHR ''-'' \<in> set ''new-nginx-cfg''" by simp
      with Pair None CreateTemp_None [of e "[]" "''new-nginx-cfg''" w w1]
      have "active_untouched w w1" by simp
      with Pair None True show ?thesis
        by (simp add: OnUpdate_diff_def Let_def)
    next
      case (Some tmp)
      with Pair have ct: "CreateTemp e [] ''new-nginx-cfg'' w = (Some tmp, w1)" by simp
      have "CHR ''-'' \<in> set ''new-nginx-cfg''" by simp
      from CreateTemp_Some [OF ct this] have tmp: "tmp \<noteq> cfgPath" and u1: "active_untouched w w1"
        by simp_all
      obtain r2 w2 where wf: "WriteFile e tmp content w1 = (r2, w2)"
        by (cases "WriteFile e tmp content w1")
      from WriteFile_untouched [OF tmp, of w1 e content] wf have "active_untouched w1 w2" by simp
      with u1 have u12: "active_untouched w w2" by (rule active_untouched_trans)
      have u3: "active_untouched w (Remove tmp w2)"
        using u12 Remove_untouched [OF tmp] by (rule active_untouched_trans)
      show ?thesis
        using True ct wf u12 u3
        by (simp add: OnUpdate_diff_def Let_def split: option.splits)
    qed
  qed
qed

lemma WriteFile_active:
  assumes "active_untouched w0 w"
  shows "active_untouched w0 (snd (WriteFile e cfgPath content w))
       \<or> active_written w0 (snd (WriteFile e cfgPath content w)) content"
proof -
  from assms obtain new where new: "writes w = writes w0 @ new" "cfgPath \<notin> fst ` set new"
    and f: "files w cfgPath = files w0 cfgPath"
    unfolding active_untouched_iff by blast
  from new(2) have nofilter: "filter (\<lambda>x. fst x = cfgPath) new = []"
    by (force simp: filter_empty_conv)
  let ?w = "snd (WriteFile e cfgPath content w)"
  from WriteFile_any [of e cfgPath content w]
  show ?thesis
  proof
    assume "files ?w = files w \<and> writes ?w = writes w"
    with assms have "active_untouched w0 ?w" by (simp add: active_untouched_iff)
    then show ?thesis ..
  next
    assume "\<exists>k. files ?w = (files w)(cfgPath \<mapsto> take k content) \<and>
           writes ?w = writes w @ [(cfgPath, take k content)]"
    then obtain k where k: "files ?w = (files w)(cfgPath \<mapsto> take k content)"
      "writes ?w = writes w @ [(cfgPath, take k content)]" by blast
    have "active_written w0 ?w content"
    proof (rule active_writtenI)
      show "writes ?w = writes w0 @ (new @ [(cfgPath, take k content)])"
        by (simp add: k new)
      show "filter (\<lambda>x. fst x = cfgPath) (new @ [(cfgPath, take k content)])
          = [(cfgPath, take k content)]"
        by (simp add: nofilter)
      show "take (length (take k content)) content = take k content"
        by (simp add: min_def)
      show "files ?w cfgPath = Some (take k content)" by (simp add: k)
    qed
    then show ?thesis ..
  qed
qed

lemma apply_tail:
  assumes "active_untouched w0 w3" and "\<And>w. snd (K w) = w"
  shows "active_untouched w0
           (snd (case OnUpdate_diff e content w3 of
                   (Some err, w) \<Rightarrow> (Some err, w)
                 | (None, w) \<Rightarrow>
                     (case WriteFile e cfgPath content w of
                        (Some err, w) \<Rightarrow> (Some err, w)
                      | (None, w) \<Rightarrow> K w)))
       \<or> active_written w0
           (snd (case OnUpdate_diff e content w3 of
                   (Some err, w) \<Rightarrow> (Some err, w)
                 | (None, w) \<Rightarrow>
                     (case WriteFile e cfgPath content w of
                        (Some err, w) \<Rightarrow> (Some err, w)
                      | (None, w) \<Rightarrow> K w))) content"
proof -
  obtain r4 w4 where d: "OnUpdate_diff e content w3 = (r4, w4)"
    by (cases "OnUpdate_diff e content w3")
  from OnUpdate_diff_untouched [of w3 e content] d have "active_untouched w3 w4" by simp
  with assms(1) have u4: "active_untouched w0 w4" by (rule active_untouched_trans)
  obtain r5 w5 where wf: "WriteFile e cfgPath content w4 = (r5, w5)"
    by (cases "WriteFile e cfgPath content w4")
  from WriteFile_active [OF u4, of e content] wf
  have w5: "active_untouched w0 w5 \<or> active_written w0 w5 content" by simp
  show ?thesis
    using d wf u4 w5 assms(2) by (cases r4; cases r5) simp_all
qed


lemma apply_tail_success:
  assumes "\<And>w. snd (K w) = w"
    and "fst (case OnUpdate_diff e content w3 of
                (Some err, w) \<Rightarrow> (Some err, w)
              | (None, w) \<Rightarrow>
                  (case WriteFile e cfgPath content w of
                     (Some err, w) \<Rightarrow> (Some err, w)
                   | (None, w) \<Rightarrow> K w)) = None"
  shows "files (snd (case OnUpdate_diff e content w3 of
                (Some err, w) \<Rightarrow> (Some err, w)
              | (None, w) \<Rightarrow>
                  (case WriteFile e cfgPath content w of
                     (Some err, w) \<Rightarrow> (Some err, w)
                   | (None, w) \<Rightarrow> K w))) cfgPath = Some content"
proof -
  obtain r4 w4 where d: "OnUpdate_diff e content w3 = (r4, w4)"
    by (cases "OnUpdate_diff e content w3")
  obtain r5 w5 where wf: "WriteFile e cfgPath content w4 = (r5, w5)"
    by (cases "WriteFile e cfgPath content w4")
  from assms(2) d have r4: "r4 = None" by (cases r4) simp_all
  with assms(2) d wf have r5: "r5 = None" by (cases r5) simp_all
  from WriteFile_ok [OF wf [unfolded r5]] have "files w5 cfgPath = Some content" by simp
  with d wf r4 r5 assms(1) show ?thesis by simp
qed

lemma OnUpdate_test_failure:
  assumes gen: "generateTemplate e cfg servers w = (Some content, w1)"
    and ot: "createOpentracingCfg e cfg w1 = (None, w2)"
    and tt: "testTemplate e content w2 = (Some err, w3)"
  shows "OnUpdate e cfg servers w = (Some err, w3) \<and> active_untouched w w3"
proof -
  have "OnUpdate e cfg servers w = (Some err, w3)"
    by (simp add: OnUpdate_def gen ot tt)
  moreover have "active_untouched w w1"
    using generateTemplate_untouched [of w e cfg servers] gen by simp
  moreover have "active_untouched w1 w2"
    using createOpentracingCfg_untouched [of w1 e cfg] ot by simp
  moreover have "active_untouched w2 w3"
    using testTemplate_in_untouched [of w2 "TempDir e @ ''/nginx''" e content] tt
    by (simp add: testTemplate_def)
  ultimately show ?thesis by (blast intro: active_untouched_trans)
qed

lemma OnUpdate_active:
  "active_untouched w (snd (OnUpdate e cfg servers w)) \<or>
   (\<exists>content. fst (generateTemplate e cfg servers w) = Some content \<and>
      nginx_test e (Some content) = None \<and>
      active_written w (snd (OnUpdate e cfg servers w)) content)"
proof -
  obtain g w1 where gen: "generateTemplate e cfg servers w = (g, w1)"
    by (cases "generateTemplate e cfg servers w")
  have u1: "active_untouched w w1"
    using generateTemplate_untouched [of w e cfg servers] gen by simp
  show ?thesis
  proof (cases g)
    case None
    with gen u1 show ?thesis by (simp add: OnUpdate_def)
  next
    case (Some content)
    obtain r2 w2 where ot: "createOpentracingCfg e cfg w1 = (r2, w2)"
      by (cases "createOpentracingCfg e cfg w1")
    have "active_untouched w1 w2"
      using createOpentracingCfg_untouched [of w1 e cfg] ot by simp
    with u1 have u2: "active_untouched w w2" by (rule active_untouched_trans)
    obtain r3 w3 where tt: "testTemplate e content w2 = (r3, w3)"
      by (cases "testTemplate e content w2")
    have "active_untouched w2 w3"
      using testTemplate_in_untouched [of w2 "TempDir e @ ''/nginx''" e content] tt
      by (simp add: testTemplate_def)
    with u2 have u3: "active_untouched w w3" by (rule active_untouched_trans)
    show ?thesis
    proof (cases "r2 = None \<and> r3 = None")
      case False
      then have "snd (OnUpdate e cfg servers w) = w2 \<or> snd (OnUpdate e cfg servers w) = w3"
        using gen Some ot tt by (cases r2; cases r3) (simp_all add: OnUpdate_def)
      with u2 u3 show ?thesis by auto
    next
      case True
      with tt have "testTemplate_in (TempDir e @ ''/nginx'') e content w2 = (None, w3)"
        by (simp add: testTemplate_def)
      then have passed: "nginx_test e (Some content) = None" by (rule testTemplate_in_passed)
      let ?K = "\<lambda>w. if gRPCServer_nil e
           then (case nginx_reload e of
                   Some out \<Rightarrow> (Some (ReloadError out), w)
                 | None \<Rightarrow> (None :: error option, w))
           else (None, w :: world)"
      have K: "snd (?K w) = w" for w by (simp split: option.splits)
      have "OnUpdate e cfg servers w =
         (case OnUpdate_diff e content w3 of
            (Some err, w) \<Rightarrow> (Some err, w)
          | (None, w) \<Rightarrow>
              (case WriteFile e cfgPath content w of
                 (Some err, w) \<Rightarrow> (Some err, w)
               | (None, w) \<Rightarrow> ?K w))"
        using gen Some ot tt True by (simp add: OnUpdate_def)
      with apply_tail [of w w3 ?K e content, OF u3 K]
      have "active_untouched w (snd (OnUpdate e cfg servers w))
          \<or> active_written w (snd (OnUpdate e cfg servers w)) content"
        by simp
      with passed gen Some show ?thesis by auto
    qed
  qed
qed

lemma OnUpdate_success:
  assumes "fst (OnUpdate e cfg servers w) = None"
  shows "files (snd (OnUpdate e cfg servers w)) cfgPath = fst (generateTemplate e cfg servers w) \<and>
    (\<exists>content. fst (generateTemplate e cfg servers w) = Some content \<and>
       nginx_test e (Some content) = None)"
proof -
  obtain g w1 where gen: "generateTemplate e cfg servers w = (g, w1)"
    by (cases "generateTemplate e cfg servers w")
  with assms obtain content where g: "g = Some content"
    by (cases g) (simp_all add: OnUpdate_def)
  obtain r2 w2 where ot: "createOpentracingCfg e cfg w1 = (r2, w2)"
    by (cases "createOpentracingCfg e cfg w1")
  with assms gen g have r2: "r2 = None" by (cases r2) (simp_all add: OnUpdate_def)
  obtain r3 w3 where tt: "testTemplate e content w2 = (r3, w3)"
    by (cases "testTemplate e content w2")
  with assms gen g ot r2 have r3: "r3 = None" by (cases r3) (simp_all add: OnUpdate_def)
  from tt r3 have "testTemplate_in (TempDir e @ ''/nginx'') e content w2 = (None, w3)"
    by (simp add: testTemplate_def)
  then have passed: "nginx_test e (Some content) = None" by (rule testTemplate_in_passed)
  let ?K = "\<lambda>w. if gRPCServer_nil e
       then (case nginx_reload e of
               Some out \<Rightarrow> (Some (ReloadError out), w)
             | None \<Rightarrow> (None :: error option, w))
       else (None, w :: world)"
  have K: "snd (?K w) = w" for w by (simp split: option.splits)
  have eq: "OnUpdate e cfg servers w =
     (case OnUpdate_diff e content w3 of
        (Some err, w) \<Rightarrow> (Some err, w)
      | (None, w) \<Rightarrow>
          (case WriteFile e cfgPath content w of
             (Some err, w) \<Rightarrow> (Some err, w)
           | (None, w) \<Rightarrow> ?K w))"
    using gen g ot r2 tt r3 by (simp add: OnUpdate_def)
  from apply_tail_success [of ?K e content w3, OF K] assms
  have "files (snd (OnUpdate e cfg servers w)) cfgPath = Some content"
    by (simp only: eq)
  with gen g passed show ?thesis by simp
qed

lemma OnUpdate_legacy_success:
  assumes "fst (OnUpdate_legacy e cfg servers w) = None"
  shows "\<exists>content. (\<exists>cfg' m r. t_Write_legacy e cfg' m r servers = Some content) \<and>
       nginx_test e (Some content) = None \<and>
       files (snd (OnUpdate_legacy e cfg servers w)) cfgPath = Some content"
proof -
  obtain cfg1 redirects where c: "OnUpdate_cfg_legacy cfg servers = (cfg1, redirects)"
    by (cases "OnUpdate_cfg_legacy cfg servers")
  from assms c obtain m where
    m: "maxOpenFiles_legacy (atoi_WorkerProcesses e) (sysctlFSFileMax e) = Some m"
    by (cases "maxOpenFiles_legacy (atoi_WorkerProcesses e) (sysctlFSFileMax e)")
      (simp_all add: OnUpdate_legacy_def)
  obtain cfg2 w1 where dh: "OnUpdate_dhparam_legacy e cfg1 w = (cfg2, w1)"
    by (cases "OnUpdate_dhparam_legacy e cfg1 w")
  from assms c m dh obtain content where
    tw: "t_Write_legacy e cfg2 m redirects servers = Some content"
    by (cases "t_Write_legacy e cfg2 m redirects servers") (simp_all add: OnUpdate_legacy_def)
  obtain r3 w3 where tt: "testTemplate_legacy e content w1 = (r3, w3)"
    by (cases "testTemplate_legacy e content w1")
  with assms c m dh tw have r3: "r3 = None"
    by (cases r3) (simp_all add: OnUpdate_legacy_def)
  from tt r3 have "testTemplate_in [] e content w1 = (None, w3)"
    by (simp add: testTemplate_legacy_def)
  then have passed: "nginx_test e (Some content) = None" by (rule testTemplate_in_passed)
  let ?K = "\<lambda>w. case nginx_reload e of
               Some out \<Rightarrow> (Some (ReloadError out), w :: world)
             | None \<Rightarrow> (None :: error option, w)"
  have K: "snd (?K w) = w" for w by (simp split: option.splits)
  have eq: "OnUpdate_legacy e cfg servers w =
     (case OnUpdate_diff e content w3 of
        (Some err, w) \<Rightarrow> (Some err, w)
      | (None, w) \<Rightarrow>
          (case WriteFile e cfgPath content w of
             (Some err, w) \<Rightarrow> (Some err, w)
           | (None, w) \<Rightarrow> ?K w))"
    using c m dh tw tt r3 by (simp add: OnUpdate_legacy_def)
  from apply_tail_success [of ?K e content w3, OF K] assms
  have "files (snd (OnUpdate_legacy e cfg servers w)) cfgPath = Some content"
    by (simp only: eq)
  with tw passed show ?thesis by blast
qed

lemma OnUpdate_legacy_test_failure:
  assumes "OnUpdate_cfg_legacy cfg servers = (cfg1, redirects)"
    and "maxOpenFiles_legacy (atoi_WorkerProcesses e) (sysctlFSFileMax e) = Some m"
    and dh: "OnUpdate_dhparam_legacy e cfg1 w = (cfg2, w1)"
    and "t_Write_legacy e cfg2 m redirects servers = Some content"
    and tt: "testTemplate_legacy e content w1 = (Some err, w2)"
  shows "OnUpdate_legacy e cfg servers w = (Some err, w2) \<and> active_untouched w w2"
proof -
  have "OnUpdate_legacy e cfg servers w = (Some err, w2)"
    using assms by (simp add: OnUpdate_legacy_def)
  moreover have "active_untouched w w1"
    using OnUpdate_dhparam_legacy_untouched [of w e cfg1] dh by simp
  moreover have "active_untouched w1 w2"
    using testTemplate_in_untouched [of w1 "[]" e content] tt
    by (simp add: testTemplate_legacy_def)
  ultimately show ?thesis by (blast intro: active_untouched_trans)
qed

lemma OnUpdate_legacy_active:
  "active_untouched w (snd (OnUpdate_legacy e cfg servers w)) \<or>
   (\<exists>content. (\<exists>cfg' m r. t_Write_legacy e cfg' m r servers = Some content) \<and>
      nginx_test e (Some content) = None \<and>
      active_written w (snd (OnUpdate_legacy e cfg servers w)) content)"
proof -
  obtain cfg1 redirects where c: "OnUpdate_cfg_legacy cfg servers = (cfg1, redirects)"
    by (cases "OnUpdate_cfg_legacy cfg servers")
  show ?thesis
  proof (cases "maxOpenFiles_legacy (atoi_WorkerProcesses e) (sysctlFSFileMax e)")
    case None
    with c show ?thesis by (simp add: OnUpdate_legacy_def active_untouched_refl)
  next
    case (Some m)
    obtain cfg2 w1 where dh: "OnUpdate_dhparam_legacy e cfg1 w = (cfg2, w1)"
      by (cases "OnUpdate_dhparam_legacy e cfg1 w")
    have u1: "active_untouched w w1"
      using OnUpdate_dhparam_legacy_untouched [of w e cfg1] dh by simp
    show ?thesis
    proof (cases "t_Write_legacy e cfg2 m redirects servers")
      case None
      with c Some dh u1 show ?thesis by (simp add: OnUpdate_legacy_def)
    next
      case tw: (Some content)
      obtain r3 w3 where tt: "testTemplate_legacy e content w1 = (r3, w3)"
        by (cases "testTemplate_legacy e content w1")
      have "active_untouched w1 w3"
        using testTemplate_in_untouched [of w1 "[]" e content] tt
        by (simp add: testTemplate_legacy_def)
      with u1 have u3: "active_untouched w w3" by (rule active_untouched_trans)
      show ?thesis
      proof (cases r3)
        case (Some err)
        with c \<open>maxOpenFiles_legacy _ _ = Some m\<close> dh tw tt u3 show ?thesis
          by (simp add: OnUpdate_legacy_def)
      next
        case None
        with tt have "testTemplate_in [] e content w1 = (None, w3)"
          by (simp add: testTemplate_legacy_def)
        then have passed: "nginx_test e (Some content) = None" by (rule testTemplate_in_passed)
        let ?K = "\<lambda>w. case nginx_reload e of
                   Some out \<Rightarrow> (Some (ReloadError out), w :: world)
                 | None \<Rightarrow> (None :: error option, w)"
        have K: "snd (?K w) = w" for w by (simp split: option.splits)
        have "OnUpdate_legacy e cfg servers w =
           (case OnUpdate_diff e content w3 of
              (Some err, w) \<Rightarrow> (Some err, w)
            | (None, w) \<Rightarrow>
                (case WriteFile e cfgPath content w of
                   (Some err, w) \<Rightarrow> (Some err, w)
                 | (None, w) \<Rightarrow> ?K w))"
          using c \<open>maxOpenFiles_legacy _ _ = Some m\<close> dh tw tt None
          by (simp add: OnUpdate_legacy_def)
        with apply_tail [of w w3 ?K e content, OF u3 K]
        have "active_untouched w (snd (OnUpdate_legacy e cfg servers w))
            \<or> active_written w (snd (OnUpdate_legacy e cfg servers w)) content"
          by simp
        with passed tw show ?thesis by blast
      qed
    qed
  qed
qed


text \<open>
  C1, as amended.  In both generations of \<open>OnUpdate\<close>: if \<open>testTemplate\<close> fails on the
  candidate, \<open>OnUpdate\<close> returns its error, in a state in which the active configuration
  file has its old content and no write to its path has happened.  Whatever the run
  does, it either leaves the active configuration file alone, or the candidate has passed
  the self-test of the worker binary and the one write to the active path carries bytes
  of the candidate: a prefix of it, since \<open>os.WriteFile\<close> truncates the file and writes it in
  place, and the whole candidate whenever \<open>OnUpdate\<close> returns no error.
\<close>

theorem OnUpdate_validates_before_write:
  "(generateTemplate e cfg servers w = (Some content, w1) \<and>
    createOpentracingCfg e cfg w1 = (None, w2) \<and>
    testTemplate e content w2 = (Some err, w3) \<longrightarrow>
      OnUpdate e cfg servers w = (Some err, w3) \<and> active_untouched w w3) \<and>
   (active_untouched w (snd (OnUpdate e cfg servers w)) \<or>
    (\<exists>content. fst (generateTemplate e cfg servers w) = Some content \<and>
       nginx_test e (Some content) = None \<and>
       active_written w (snd (OnUpdate e cfg servers w)) content)) \<and>
   (fst (OnUpdate e cfg servers w) = None \<longrightarrow>
      files (snd (OnUpdate e cfg servers w)) cfgPath = fst (generateTemplate e cfg servers w) \<and>
      (\<exists>content. fst (generateTemplate e cfg servers w) = Some content \<and>
         nginx_test e (Some content) = None)) \<and>
   (OnUpdate_cfg_legacy cfg servers = (cfg1, redirects) \<and>
    maxOpenFiles_legacy (atoi_WorkerProcesses e) (sysctlFSFileMax e) = Some m \<and>
    OnUpdate_dhparam_legacy e cfg1 w = (cfg2, v1) \<and>
    t_Write_legacy e cfg2 m redirects servers = Some content' \<and>
    testTemplate_legacy e content' v1 = (Some err', v2) \<longrightarrow>
      OnUpdate_legacy e cfg servers w = (Some err', v2) \<and> active_untouched w v2) \<and>
   (active_untouched w (snd (OnUpdate_legacy e cfg servers w)) \<or>
    (\<exists>content. (\<exists>cfg' m r. t_Write_legacy e cfg' m r servers = Some content) \<and>
       nginx_test e (Some content) = None \<and>
       active_written w (snd (OnUpdate_legacy e cfg servers w)) content)) \<and>
   (fst (OnUpdate_legacy e cfg servers w) = None \<longrightarrow>
      (\<exists>content. (\<exists>cfg' m r. t_Write_legacy e cfg' m r servers = Some content) \<and>
         nginx_test e (Some content) = None \<and>
         files (snd (OnUpdate_legacy e cfg servers w)) cfgPath = Some content))"
  using OnUpdate_test_failure [of e cfg servers w content w1 w2 err w3]
    OnUpdate_active [of w e cfg servers]
    OnUpdate_success [of e cfg servers w]
    OnUpdate_legacy_test_failure [of cfg servers cfg1 redirects e m w cfg2 v1 content' err' v2]
    OnUpdate_legacy_active [of w e cfg servers]
    OnUpdate_legacy_success [of e cfg servers w]
  by blast

lemmas eval_defs = example_env_def example_cfg_def example_world_def
  generateTemplate_def createOpentracingCfg_def testTemplate_def testTemplate_legacy_def
  testTemplate_in_def CreateTemp_def CreateTemp_fresh joinPath_def tempNginxPattern_def
  WriteFile_def Remove_def
  OnUpdate_def OnUpdate_legacy_def OnUpdate_diff_def OnUpdate_dhparam_legacy_def
  OnUpdate_cfg_legacy_def maxOpenFiles_legacy_def go_div_def
  cfgPath_def active_untouched_def writes_since_def Let_def

theorem OnUpdate_validates_before_write_witness:
  "fst (OnUpdate (example_env False) example_cfg [] example_world) = Some (TestError ''[emerg]'') \<and>
   active_untouched example_world (snd (OnUpdate (example_env False) example_cfg [] example_world)) \<and>
   files (snd (OnUpdate (example_env False) example_cfg [] example_world)) cfgPath = Some ''old'' \<and>
   fst (OnUpdate_legacy (example_env False) example_cfg [] example_world) = Some (TestError ''[emerg]'') \<and>
   active_untouched example_world (snd (OnUpdate_legacy (example_env False) example_cfg [] example_world)) \<and>
   fst (OnUpdate (example_env True) example_cfg [] example_world) = None \<and>
   files (snd (OnUpdate (example_env True) example_cfg [] example_world)) cfgPath = Some ''events {}'' \<and>
   fst (OnUpdate_legacy (example_env True) example_cfg [] example_world) = None \<and>
   files (snd (OnUpdate_legacy (example_env True) example_cfg [] example_world)) cfgPath = Some ''events {}''"
proof -
  let ?e = "example_env False"
  let ?w1 = "snd (generateTemplate ?e example_cfg [] example_world)"
  let ?w2 = "snd (createOpentracingCfg ?e example_cfg ?w1)"
  let ?w3 = "snd (testTemplate ?e ''events {}'' ?w2)"
  have g: "generateTemplate ?e example_cfg [] example_world = (Some ''events {}'', ?w1)"
    by (simp add: eval_defs)
  have ot: "createOpentracingCfg ?e example_cfg ?w1 = (None, ?w2)"
    by (simp add: eval_defs)
  have tt: "testTemplate ?e ''events {}'' ?w2 = (Some (TestError ''[emerg]''), ?w3)"
    by (simp add: eval_defs)
  let ?c1 = "fst (OnUpdate_cfg_legacy example_cfg [])"
  let ?r = "snd (OnUpdate_cfg_legacy example_cfg [])"
  let ?c2 = "fst (OnUpdate_dhparam_legacy ?e ?c1 example_world)"
  let ?v1 = "snd (OnUpdate_dhparam_legacy ?e ?c1 example_world)"
  let ?v2 = "snd (testTemplate_legacy ?e ''events {}'' ?v1)"
  have l1: "OnUpdate_cfg_legacy example_cfg [] = (?c1, ?r)" by simp
  have l2: "maxOpenFiles_legacy (atoi_WorkerProcesses ?e) (sysctlFSFileMax ?e) = Some 1047552"
    by (simp add: eval_defs signed_divide_int_def word_sless_alt)
  have l3: "OnUpdate_dhparam_legacy ?e ?c1 example_world = (?c2, ?v1)" by simp
  have l4: "t_Write_legacy ?e ?c2 1047552 ?r [] = Some ''events {}''"
    by (simp add: example_env_def)
  have l5: "testTemplate_legacy ?e ''events {}'' ?v1 = (Some (TestError ''[emerg]''), ?v2)"
    by (simp add: eval_defs)
  note inst = OnUpdate_validates_before_write [of ?e example_cfg "[]" example_world
      "''events {}''" ?w1 ?w2 "TestError ''[emerg]''" ?w3 ?c1 ?r 1047552 ?c2 ?v1 "''events {}''"
      "TestError ''[emerg]''" ?v2]
  from inst g ot tt have a: "OnUpdate ?e example_cfg [] example_world = (Some (TestError ''[emerg]''), ?w3)
      \<and> active_untouched example_world ?w3" by blast
  from inst l1 l2 l3 l4 l5
  have b: "OnUpdate_legacy ?e example_cfg [] example_world = (Some (TestError ''[emerg]''), ?v2)
      \<and> active_untouched example_world ?v2" by blast
  have c: "files (snd (OnUpdate (example_env False) example_cfg [] example_world)) cfgPath = Some ''old''"
    by (simp add: eval_defs)
  have d: "fst (OnUpdate (example_env True) example_cfg [] example_world) = None \<and>
   files (snd (OnUpdate (example_env True) example_cfg [] example_world)) cfgPath = Some ''events {}''"
    by (simp add: eval_defs)
  have f: "fst (OnUpdate_legacy (example_env True) example_cfg [] example_world) = None \<and>
   files (snd (OnUpdate_legacy (example_env True) example_cfg [] example_world)) cfgPath = Some ''events {}''"
    by (simp add: eval_defs signed_divide_int_def word_sless_alt)
  from a b c d f show ?thesis by simp
qed

text \<open>
  C1 as stated fails in both generations: when the write to the active path fails after
  three bytes, the active configuration file holds \<open>eve\<close>, which never passed the
  self-test (and would not), although the candidate \<open>events {}\<close> did.
\<close>

theorem active_file_truncated_by_failed_write:
  "nginx_test example_env_truncating (Some ''events {}'') = None \<and>
   nginx_test example_env_truncating (Some ''eve'') = Some ''[emerg]'' \<and>
   fst (OnUpdate example_env_truncating example_cfg [] example_world) = Some WriteFileError \<and>
   files (snd (OnUpdate example_env_truncating example_cfg [] example_world)) cfgPath
     = Some ''eve'' \<and>
   fst (OnUpdate_legacy example_env_truncating example_cfg [] example_world)
     = Some WriteFileError \<and>
   files (snd (OnUpdate_legacy example_env_truncating example_cfg [] example_world)) cfgPath
     = Some ''eve''"
  by (simp add: example_env_truncating_def eval_defs signed_divide_int_def word_sless_alt)

end
